theory Spec2Isabelle
  imports Main
begin

section \<open>The auto-sorter of \<^verbatim>\<open>src/sorter.py\<close>\<close>

text \<open>
  The handler \<^verbatim>\<open>AutoSortHandler\<close> reacts to a file-creation event: it waits until the
  file has stopped growing (\<^verbatim>\<open>wait_for_download\<close>), reads a bracketed tag off the file
  name (\<^verbatim>\<open>extract_tag\<close>), looks the tag up in the sorting rules and moves the file into
  the rule's folder (\<^verbatim>\<open>move_file\<close>), under a name that is free there
  (\<^verbatim>\<open>get_unique_filename\<close>).

  Python strings are modelled as \<^typ>\<open>string\<close>, Python integers as \<^typ>\<open>int\<close> (or
  \<^typ>\<open>nat\<close> where the code only counts upwards from 1), the dictionary of rules as a
  map. Paths follow the POSIX flavour of \<^verbatim>\<open>os.path\<close>.
\<close>

subsection \<open>Tag extraction\<close>

text \<open>
  \<^verbatim>\<open>TAG_PATTERN = r"^(\[.*?\])"\<close>, used through \<^verbatim>\<open>re.match\<close>. The pattern is compiled
  without flags, so \<^verbatim>\<open>.\<close> matches every character but the line feed.
\<close>

definition LF :: char where
  "LF = CHR 0x0A"

text \<open>
  The tail \<^verbatim>\<open>.*?\]\<close> of the pattern. The star is lazy: at every position the matcher
  first tries the closing bracket, and only when that fails lets \<^verbatim>\<open>.\<close> consume one
  more character. The result is the text consumed, the bracket included.
\<close>

fun lazy_dots_rbracket :: "string \<Rightarrow> string option" where
  "lazy_dots_rbracket [] = None"
| "lazy_dots_rbracket (c # cs) =
     (if c = CHR '']'' then Some [c]
      else if c = LF then None
      else map_option ((#) c) (lazy_dots_rbracket cs))"

text \<open>\<^verbatim>\<open>re.match(TAG_PATTERN, s)\<close>: the value of group 1, or \<open>None\<close> when there is no match.\<close>

definition re_match_TAG_PATTERN :: "string \<Rightarrow> string option" where
  "re_match_TAG_PATTERN s =
     (case s of
        [] \<Rightarrow> None
      | c # cs \<Rightarrow>
          if c = CHR ''['' then map_option ((#) c) (lazy_dots_rbracket cs) else None)"

text \<open>
  \<^verbatim>\<open>
  def extract_tag(self, file_name):
      match = re.match(TAG_PATTERN, file_name)
      return match.group(1).lower() if match else None
  \<close>
  \<^verbatim>\<open>str.lower\<close> is Python's own; its case tables are not part of the repository, so the
  function is a parameter of the model.
\<close>

definition extract_tag :: "(string \<Rightarrow> string) \<Rightarrow> string \<Rightarrow> string option" where
  "extract_tag lower file_name =
     (case re_match_TAG_PATTERN file_name of
        Some group1 \<Rightarrow> Some (lower group1)
      | None \<Rightarrow> None)"

text \<open>\<^verbatim>\<open>str.lower\<close> on ASCII text, to run the model on concrete names.\<close>

definition lower_ascii_char :: "char \<Rightarrow> char" where
  "lower_ascii_char c =
     (case map_of (zip ''ABCDEFGHIJKLMNOPQRSTUVWXYZ'' ''abcdefghijklmnopqrstuvwxyz'') c of
        Some l \<Rightarrow> l
      | None \<Rightarrow> c)"

definition lower_ascii :: "string \<Rightarrow> string" where
  "lower_ascii s = map lower_ascii_char s"

subsection \<open>Paths\<close>

text \<open>
  The functions of \<^verbatim>\<open>os.path\<close> the code calls, as \<^verbatim>\<open>posixpath\<close> defines them: the
  separator is \<^verbatim>\<open>/\<close>.
\<close>

type_synonym path = string

text \<open>
  \<^verbatim>\<open>os.path.join(a, b)\<close>: an absolute \<open>b\<close> replaces \<open>a\<close>; otherwise \<open>b\<close> is appended,
  after a separator unless \<open>a\<close> is empty or ends with one.
\<close>

definition join :: "path \<Rightarrow> path \<Rightarrow> path" where
  "join a b =
     (case b of
        c # _ \<Rightarrow>
          if c = CHR ''/'' then b
          else if a = [] \<or> last a = CHR ''/'' then a @ b
          else a @ ''/'' @ b
      | [] \<Rightarrow> if a = [] \<or> last a = CHR ''/'' then a @ b else a @ ''/'' @ b)"

text \<open>\<^verbatim>\<open>s.rfind(c)\<close>: the highest index of \<open>c\<close> in \<open>s\<close>, or \<open>-1\<close>.\<close>

definition rfind :: "char \<Rightarrow> string \<Rightarrow> int" where
  "rfind c s =
     (if c \<in> set s then int (length s) - 1 - int (length (takeWhile (\<lambda>x. x \<noteq> c) (rev s)))
      else - 1)"

text \<open>\<^verbatim>\<open>os.path.basename(p)\<close>: \<^verbatim>\<open>i = p.rfind('/') + 1; return p[i:]\<close>.\<close>

definition basename :: "path \<Rightarrow> string" where
  "basename p = drop (nat (rfind (CHR ''/'') p + 1)) p"

text \<open>
  \<^verbatim>\<open>os.path.splitext(p)\<close>:
  \<^verbatim>\<open>
  sepIndex = p.rfind(sep)
  dotIndex = p.rfind(extsep)
  if dotIndex > sepIndex:
      # skip all leading dots
      filenameIndex = sepIndex + 1
      while filenameIndex < dotIndex:
          if p[filenameIndex:filenameIndex+1] != extsep:
              return p[:dotIndex], p[dotIndex:]
          filenameIndex += 1
  return p, p[:0]
  \<close>
  The inner loop looks for a character other than the dot in \<^verbatim>\<open>p[sepIndex+1:dotIndex]\<close>.
\<close>

definition splitext :: "path \<Rightarrow> string \<times> string" where
  "splitext p =
     (let sepIndex = rfind (CHR ''/'') p;
          dotIndex = rfind (CHR ''.'') p
      in if dotIndex > sepIndex \<and>
            (\<exists>c \<in> set (drop (nat (sepIndex + 1)) (take (nat dotIndex) p)). c \<noteq> CHR ''.'')
         then (take (nat dotIndex) p, drop (nat dotIndex) p)
         else (p, []))"

text \<open>The decimal text of the counter, as the f-string \<^verbatim>\<open>f"{counter}"\<close> prints it.\<close>

definition digit_char :: "nat \<Rightarrow> char" where
  "digit_char d = ''0123456789'' ! d"

fun str_nat :: "nat \<Rightarrow> string" where
  "str_nat n = (if n < 10 then [digit_char n] else str_nat (n div 10) @ [digit_char (n mod 10)])"

declare str_nat.simps [simp del]

subsection \<open>The file system\<close>

text \<open>
  What the handler sees of the file system when it moves a file: the paths that exist,
  each a directory or a regular file with its content. \<^verbatim>\<open>os.path.exists\<close> is a lookup.
\<close>

datatype node = Dir | File string

type_synonym fs = "(path \<times> node) list"

definition path_exists :: "fs \<Rightarrow> path \<Rightarrow> bool" where
  "path_exists fs p = (map_of fs p \<noteq> None)"

subsection \<open>A free name in the destination folder\<close>

text \<open>
  \<^verbatim>\<open>
  def get_unique_filename(destination, file_name):
      base_name, ext = os.path.splitext(file_name)
      new_file_path = os.path.join(destination, file_name)
      counter = 1
      while os.path.exists(new_file_path):
          new_file_name = f"{base_name}_{counter}{ext}"
          new_file_path = os.path.join(destination, new_file_name)
          counter += 1
      return new_file_path
  \<close>
  \<open>numbered\<close> is the path the loop body builds for a value of the counter.
\<close>

definition numbered :: "path \<Rightarrow> string \<Rightarrow> string \<Rightarrow> nat \<Rightarrow> path" where
  "numbered destination base_name ext counter =
     join destination (base_name @ ''_'' @ str_nat counter @ ext)"


text \<open>
  The loop has no bound on the counter. It ends because the numbered paths are pairwise
  different and only finitely many paths exist: \<open>taken_from\<close>, the counters from
  \<open>c\<close> on whose path exists, is the set that shrinks.
\<close>

function unique_loop :: "fs \<Rightarrow> path \<Rightarrow> string \<Rightarrow> string \<Rightarrow> path \<Rightarrow> nat \<Rightarrow> path" where
  "unique_loop fs destination base_name ext new_file_path counter =
     (if path_exists fs new_file_path
      then unique_loop fs destination base_name ext
             (numbered destination base_name ext counter) (counter + 1)
      else new_file_path)"
  by pat_completeness auto

definition taken_from :: "fs \<Rightarrow> path \<Rightarrow> string \<Rightarrow> string \<Rightarrow> nat \<Rightarrow> nat set" where
  "taken_from fs d b e c = {k. c \<le> k \<and> path_exists fs (numbered d b e k)}"

lemma digit_char_inj: "d < 10 \<Longrightarrow> e < 10 \<Longrightarrow> digit_char d = digit_char e \<Longrightarrow> d = e"
proof -
  assume a: "d < 10" "e < 10" "digit_char d = digit_char e"
  have "distinct ''0123456789''" by simp
  moreover have "length ''0123456789'' = 10" by simp
  ultimately show ?thesis using a unfolding digit_char_def
    by (metis nth_eq_iff_index_eq)
qed

lemma str_nat_ne: "str_nat n \<noteq> []"
  by (subst str_nat.simps) auto

lemma str_nat_length: "length (str_nat n) = Suc 0 \<longleftrightarrow> n < 10"
  by (subst str_nat.simps) (auto simp: str_nat_ne)

lemma str_nat_inj: "str_nat m = str_nat n \<Longrightarrow> m = n"
proof (induction m arbitrary: n rule: str_nat.induct)
  case (1 m)
  show ?case
  proof (cases "m < 10")
    case True
    then have "length (str_nat n) = Suc 0" using "1.prems" str_nat_length[of m] by simp
    then have n: "n < 10" by (simp add: str_nat_length)
    from True n "1.prems" show ?thesis
      by (simp add: str_nat.simps[of m] str_nat.simps[of n] digit_char_inj)
  next
    case False
    then have "length (str_nat n) \<noteq> Suc 0" using "1.prems" str_nat_length[of m] by simp
    then have n: "\<not> n < 10" by (simp add: str_nat_length)
    from False n "1.prems" have "str_nat (m div 10) = str_nat (n div 10)"
      and d: "digit_char (m mod 10) = digit_char (n mod 10)"
      by (simp_all add: str_nat.simps[of m] str_nat.simps[of n])
    then have "m div 10 = n div 10" using "1.IH" False by simp
    moreover have "m mod 10 = n mod 10" using d by (simp add: digit_char_inj)
    ultimately show ?thesis by (metis div_mult_mod_eq)
  qed
qed

lemma join_suffix: "\<exists>pre. \<forall>t. join d (b @ CHR ''_'' # t) = pre @ CHR ''_'' # t"
proof (cases b)
  case Nil
  then show ?thesis
    by (intro exI[of _ "if d = [] \<or> last d = CHR ''/'' then d else d @ ''/''"])
       (simp add: join_def)
next
  case (Cons c cs)
  then show ?thesis
    by (intro exI[of _ "if c = CHR ''/'' then b
         else if d = [] \<or> last d = CHR ''/'' then d @ b else d @ ''/'' @ b"])
       (simp add: join_def)
qed

lemma numbered_inj: "numbered d b e j = numbered d b e k \<Longrightarrow> j = k"
proof -
  assume a: "numbered d b e j = numbered d b e k"
  obtain pre where pre: "\<And>t. join d (b @ CHR ''_'' # t) = pre @ CHR ''_'' # t"
    using join_suffix by blast
  from a have "str_nat j @ e = str_nat k @ e"
    by (simp add: numbered_def pre)
  then show ?thesis by (simp add: str_nat_inj)
qed

lemma finite_numbered_existing: "finite {k. path_exists fs (numbered d b e k)}"
proof -
  have "finite (dom (map_of fs))" by (rule finite_dom_map_of)
  moreover have "inj (numbered d b e)" by (rule injI) (rule numbered_inj)
  ultimately have "finite (numbered d b e -` dom (map_of fs))"
    by (simp add: finite_vimageI)
  moreover have "{k. path_exists fs (numbered d b e k)} = numbered d b e -` dom (map_of fs)"
    by (auto simp: path_exists_def)
  ultimately show ?thesis by simp
qed

lemma finite_taken_from: "finite (taken_from fs d b e c)"
  unfolding taken_from_def using finite_numbered_existing[of fs d b e] by simp

lemma taken_from_Suc:
  "taken_from fs d b e (Suc c) = taken_from fs d b e c - {c}"
  by (auto simp: taken_from_def)

termination unique_loop
proof (relation "measure (\<lambda>(fs, d, b, e, p, c).
         2 * card (taken_from fs d b e c) + (if path_exists fs p then 1 else 0))", goal_cases)
  case 1
  then show ?case by simp
next
  case (2 fs d b e p c)
  show ?case
  proof (cases "path_exists fs (numbered d b e c)")
    case True
    then have "c \<in> taken_from fs d b e c" by (simp add: taken_from_def)
    then have "card (taken_from fs d b e (Suc c)) < card (taken_from fs d b e c)"
      unfolding taken_from_Suc by (rule card_Diff1_less [OF finite_taken_from])
    with 2 True show ?thesis by simp
  next
    case False
    then have "c \<notin> taken_from fs d b e c" by (simp add: taken_from_def)
    then have "taken_from fs d b e (Suc c) = taken_from fs d b e c"
      by (simp add: taken_from_Suc)
    with 2 False show ?thesis by simp
  qed
qed

declare unique_loop.simps [simp del]

definition get_unique_filename :: "fs \<Rightarrow> path \<Rightarrow> string \<Rightarrow> path" where
  "get_unique_filename fs destination file_name =
     (case splitext file_name of
        (base_name, ext) \<Rightarrow>
          unique_loop fs destination base_name ext (join destination file_name) 1)"

subsection \<open>Waiting for the download\<close>

text \<open>
  The errors the handler can meet: the ones the code names or lets through.
\<close>

datatype exn =
  FileNotFoundError | PermissionError | NotADirectoryError | OSError | ShutilError | ValueError

text \<open>
  What one round of the polling loop finds. The file belongs to other processes, so
  the findings are an input of the model: \<open>observe k\<close> is what round \<open>k\<close> (counted
  from 0) gets from \<^verbatim>\<open>os.path.exists\<close>, \<^verbatim>\<open>os.path.getsize\<close> and \<^verbatim>\<open>open\<close>.
  \<^item> \<open>Absent\<close>: the path does not exist;
  \<^item> \<open>GetsizeRaises e\<close>: the path exists, and reading its size raises \<open>e\<close> (the file
    went away in between, for one);
  \<^item> \<open>Sized n a\<close>: the size is \<open>n\<close>, and opening the file, if the loop tries, goes as
    \<open>a\<close> says.
\<close>

datatype open_result = Opened | OpenRaises exn

datatype probe = Absent | GetsizeRaises exn | Sized nat open_result

definition timeout_message :: "path \<Rightarrow> string" where
  "timeout_message file_path =
     ''Timeout: File '' @ file_path @ '' may not have fully downloaded.''"

text \<open>
  \<^verbatim>\<open>
  def wait_for_download(self, file_path, timeout=30, interval=1):
      previous_size = -1
      elapsed_time = 0
      while elapsed_time < timeout:
          if not os.path.exists(file_path):
              time.sleep(interval)
              elapsed_time += interval
              continue
          current_size = os.path.getsize(file_path)
          if current_size == previous_size:
              try:
                  with open(file_path, "rb"):
                      return True
              except PermissionError:
                  pass
          previous_size = current_size
          time.sleep(interval)
          elapsed_time += interval
      print(f"Timeout: File {file_path} may not have fully downloaded.")
      return False
  \<close>
  The loop, with its three variables. The result is what the call returns (\<open>Inr\<close>) or
  raises (\<open>Inl\<close>), the number of rounds begun, and the lines printed. The timeout
  and the interval are integers, as the defaults 30 and 1 are: the model says nothing
  of a call with floating-point arguments. \<^verbatim>\<open>time.sleep\<close> raises \<^verbatim>\<open>ValueError\<close> for a
  negative interval. With the interval 0 the loop need not end: the model is a partial
  function, and \<open>None\<close> stands for a call that never returns.
\<close>

partial_function (option) wait_loop ::
  "(nat \<Rightarrow> probe) \<Rightarrow> path \<Rightarrow> int \<Rightarrow> int \<Rightarrow> int \<Rightarrow> int \<Rightarrow> nat \<Rightarrow>
   ((exn + bool) \<times> nat \<times> string list) option" where
  "wait_loop observe file_path timeout interval previous_size elapsed_time polls =
     (if elapsed_time < timeout then
        (case observe polls of
           Absent \<Rightarrow>
             if interval < 0 then Some (Inl ValueError, polls + 1, [])
             else wait_loop observe file_path timeout interval previous_size
                    (elapsed_time + interval) (polls + 1)
         | GetsizeRaises e \<Rightarrow> Some (Inl e, polls + 1, [])
         | Sized current_size attempt \<Rightarrow>
             if int current_size = previous_size then
               (case attempt of
                  Opened \<Rightarrow> Some (Inr True, polls + 1, [])
                | OpenRaises e \<Rightarrow>
                    if e = PermissionError
                    then if interval < 0 then Some (Inl ValueError, polls + 1, [])
                         else wait_loop observe file_path timeout interval (int current_size)
                                (elapsed_time + interval) (polls + 1)
                    else Some (Inl e, polls + 1, []))
             else if interval < 0 then Some (Inl ValueError, polls + 1, [])
             else wait_loop observe file_path timeout interval (int current_size)
                    (elapsed_time + interval) (polls + 1))
      else Some (Inr False, polls, [timeout_message file_path]))"

declare wait_loop.simps [code]

definition wait_for_download ::
  "(nat \<Rightarrow> probe) \<Rightarrow> path \<Rightarrow> int \<Rightarrow> int \<Rightarrow> ((exn + bool) \<times> nat \<times> string list) option" where
  "wait_for_download observe file_path timeout interval =
     wait_loop observe file_path timeout interval (- 1) 0 0"

text \<open>A finding that ends the call with an error, if the loop gets to it.\<close>

fun fatal :: "probe \<Rightarrow> bool" where
  "fatal Absent = False"
| "fatal (GetsizeRaises e) = True"
| "fatal (Sized current_size Opened) = False"
| "fatal (Sized current_size (OpenRaises e)) = (e \<noteq> PermissionError)"

text \<open>
  What a call of the loop that began at round \<open>k\<close> has to show when it is over: the
  rounds it began, the last of them before the timeout, and for each way of ending
  what was printed.
\<close>

definition wait_post ::
  "(nat \<Rightarrow> probe) \<Rightarrow> path \<Rightarrow> int \<Rightarrow> int \<Rightarrow> nat \<Rightarrow> (exn + bool) \<times> nat \<times> string list \<Rightarrow> bool" where
  "wait_post obs fp timeout interval k y =
     (case y of
        (r, n, out) \<Rightarrow>
          k \<le> n \<and> (k < n \<longrightarrow> (int n - 1) * interval < timeout) \<and>
          (case r of
             Inr True \<Rightarrow> out = [] \<and> k < n
           | Inr False \<Rightarrow> out = [timeout_message fp] \<and> timeout \<le> int n * interval
           | Inl e \<Rightarrow> out = [] \<and> k < n \<and> fatal (obs (n - 1))))"

text \<open>
  The call that began with previous size \<open>prev\<close> at round \<open>k\<close> has returned \<open>True\<close>
  after \<open>n\<close> rounds: the last round found a size it could open the file at, and that
  size is the one of the size sample before it (\<open>prev\<close>, when the call has taken no
  sample of its own), with nothing but rounds that found the path absent in between.
\<close>

definition stable_after :: "(nat \<Rightarrow> probe) \<Rightarrow> int \<Rightarrow> nat \<Rightarrow> nat \<Rightarrow> bool" where
  "stable_after obs prev k n =
     (k < n \<and> (\<exists>sz. obs (n - 1) = Sized sz Opened \<and>
        (int sz = prev \<and> (\<forall>i. k \<le> i \<and> i < n - 1 \<longrightarrow> obs i = Absent) \<or>
         (\<exists>j op. k \<le> j \<and> j < n - 1 \<and> obs j = Sized sz op \<and>
            (\<forall>i. j < i \<and> i < n - 1 \<longrightarrow> obs i = Absent)))))"

subsection \<open>Moving the file\<close>

definition isdir :: "fs \<Rightarrow> path \<Rightarrow> bool" where
  "isdir fs p = (map_of fs p = Some Dir)"

definition fs_remove :: "fs \<Rightarrow> path \<Rightarrow> fs" where
  "fs_remove fs p = filter (\<lambda>entry. fst entry \<noteq> p) fs"

definition fs_write :: "fs \<Rightarrow> path \<Rightarrow> node \<Rightarrow> fs" where
  "fs_write fs p n = (p, n) # fs_remove fs p"

text \<open>
  \<^verbatim>\<open>shutil.move\<close> is the standard library's. Its steps, for a source that is not a
  symbolic link:
  \<^verbatim>\<open>
  real_dst = dst
  if os.path.isdir(dst):
      real_dst = os.path.join(dst, _basename(src))
      if os.path.exists(real_dst):
          raise Error("Destination path '%s' already exists" % real_dst)
  try:
      os.rename(src, real_dst)
  except OSError:
      copy_function(src, real_dst)
      os.unlink(src)
  return real_dst
  \<close>
  Whether the rename, the copy and the unlink go through is the system's choice
  (permissions, volumes, free space), so it is an input of the model. A rename that goes
  through replaces a file at the target. A copy can stop after it has written the first
  bytes of the target. Copying a file onto itself is refused. A source directory is
  moved as the single entry the model holds for it.
\<close>

datatype rename_result = RenameOk | RenameRaises exn

datatype copy_result = CopyOk | CopyRefused exn | CopyInterrupted nat exn

datatype unlink_result = UnlinkOk | UnlinkRaises exn

record faults =
  on_rename :: rename_result
  on_copy :: copy_result
  on_unlink :: unlink_result

fun truncated :: "nat \<Rightarrow> node \<Rightarrow> node" where
  "truncated n Dir = Dir"
| "truncated n (File content) = File (take n content)"

definition copy_then_unlink ::
  "faults \<Rightarrow> fs \<Rightarrow> path \<Rightarrow> node \<Rightarrow> path \<Rightarrow> fs \<times> exn option" where
  "copy_then_unlink f fs src source real_dst =
     (if real_dst = src then (fs, Some ShutilError)
      else
        (case on_copy f of
           CopyRefused e \<Rightarrow> (fs, Some e)
         | CopyInterrupted n e \<Rightarrow> (fs_write fs real_dst (truncated n source), Some e)
         | CopyOk \<Rightarrow>
             (case on_unlink f of
                UnlinkOk \<Rightarrow> (fs_write (fs_remove fs src) real_dst source, None)
              | UnlinkRaises e \<Rightarrow> (fs_write fs real_dst source, Some e))))"

definition shutil_move :: "faults \<Rightarrow> fs \<Rightarrow> path \<Rightarrow> path \<Rightarrow> fs \<times> exn option" where
  "shutil_move f fs src dst =
     (let real_dst = (if isdir fs dst then join dst (basename src) else dst)
      in if isdir fs dst \<and> path_exists fs real_dst then (fs, Some ShutilError)
         else
           (case map_of fs src of
              None \<Rightarrow> (fs, Some FileNotFoundError)
            | Some source \<Rightarrow>
                (case on_rename f of
                   RenameOk \<Rightarrow> (fs_write (fs_remove fs src) real_dst source, None)
                 | RenameRaises e \<Rightarrow> copy_then_unlink f fs src source real_dst)))"

text \<open>
  What the rest of the system does while the handler works on one event: the findings
  of the polling loop, the changes other processes make to the file system during the
  one-second sleep of \<^verbatim>\<open>move_file\<close>, and how the move goes.
\<close>

record env =
  probes :: "nat \<Rightarrow> probe"
  during_sleep :: "fs \<Rightarrow> fs"
  move_faults :: faults

text \<open>
  \<^verbatim>\<open>
  def move_file(self, file_path, destination_folder):
      if not os.path.exists(destination_folder):
          return
      file_name = os.path.basename(file_path)
      new_path = get_unique_filename(destination_folder, file_name)
      time.sleep(1)  # Ensure processing delay of 1 second before moving
      shutil.move(file_path, new_path)
  \<close>
  The result is the file system afterwards and the error raised, if any.
\<close>

definition move_file :: "env \<Rightarrow> fs \<Rightarrow> path \<Rightarrow> path \<Rightarrow> fs \<times> exn option" where
  "move_file world fs file_path destination_folder =
     (if \<not> path_exists fs destination_folder then (fs, None)
      else
        (let file_name = basename file_path;
             new_path = get_unique_filename fs destination_folder file_name
         in shutil_move (move_faults world) (during_sleep world fs) file_path new_path))"

subsection \<open>The handler\<close>

record event =
  is_directory :: bool
  src_path :: path

text \<open>What one call of the handler leaves: the file system, the error, the lines printed.\<close>

record handled =
  fs_after :: fs
  raised :: "exn option"
  printed :: "string list"

text \<open>
  \<^verbatim>\<open>
  def on_created(self, event):
      if event.is_directory:
          return
      file_path = event.src_path
      file_name = os.path.basename(file_path)
      if self.wait_for_download(file_path):
          tag = self.extract_tag(file_name)
          if tag and tag in self.sorting_rules:
              destination_folder = self.sorting_rules[tag]
              self.move_file(file_path, destination_folder)
  \<close>
  \<open>fs\<close> is the file system as it is when the wait is over.
\<close>

definition on_created ::
  "(string \<Rightarrow> string) \<Rightarrow> env \<Rightarrow> (string \<rightharpoonup> path) \<Rightarrow> fs \<Rightarrow> event \<Rightarrow> handled option" where
  "on_created lower world sorting_rules fs ev =
     (if is_directory ev then Some \<lparr>fs_after = fs, raised = None, printed = []\<rparr>
      else
        (let file_path = src_path ev;
             file_name = basename file_path
         in case wait_for_download (probes world) file_path 30 1 of
              None \<Rightarrow> None
            | Some (Inl e, polls, out) \<Rightarrow> Some \<lparr>fs_after = fs, raised = Some e, printed = out\<rparr>
            | Some (Inr False, polls, out) \<Rightarrow> Some \<lparr>fs_after = fs, raised = None, printed = out\<rparr>
            | Some (Inr True, polls, out) \<Rightarrow>
                (case extract_tag lower file_name of
                   None \<Rightarrow> Some \<lparr>fs_after = fs, raised = None, printed = out\<rparr>
                 | Some tag \<Rightarrow>
                     (case (if tag \<noteq> [] then sorting_rules tag else None) of
                        None \<Rightarrow> Some \<lparr>fs_after = fs, raised = None, printed = out\<rparr>
                      | Some destination_folder \<Rightarrow>
                          (case move_file world fs file_path destination_folder of
                             (fs', r) \<Rightarrow> Some \<lparr>fs_after = fs', raised = r, printed = out\<rparr>)))))"

text \<open>
  The counters \<open>1, \<dots>, K - 1\<close> are all taken: the situation in which the loop reaches
  the counter \<open>K\<close>.
\<close>

definition collides_below :: "fs \<Rightarrow> path \<Rightarrow> string \<Rightarrow> string \<Rightarrow> nat \<Rightarrow> bool" where
  "collides_below fs destination base_name ext K =
     (\<forall>j \<in> {1..<K}. path_exists fs (numbered destination base_name ext j))"

subsection \<open>Example folders\<close>

definition report_dir :: fs where
  "report_dir =
     [(''dest'', Dir), (''dest/report.txt'', File ''one''), (''dest/report_1.txt'', File ''two'')]"

definition dotfile_dir :: fs where
  "dotfile_dir = [(''dest'', Dir), (''dest/..bashrc'', File ''one'')]"

definition archive_dir :: fs where
  "archive_dir = [(''dest'', Dir), (''dest/archive.tar.gz'', File ''one''), (''dest/notes'', File ''two'')]"

subsection \<open>Example runs\<close>

text \<open>Findings of the polling loop: a file of constant size (zero bytes), \<dots>\<close>

definition steady :: "nat \<Rightarrow> probe" where
  "steady k = Sized 0 Opened"

definition steady_sizes :: "nat \<Rightarrow> nat" where
  "steady_sizes k = 0"

definition always_opened :: "nat \<Rightarrow> open_result" where
  "always_opened k = Opened"

text \<open>\<dots> a file that grows for 29 intervals, from 1 to 30 bytes, and then stays, \<dots>\<close>

definition growing29 :: "nat \<Rightarrow> probe" where
  "growing29 k = Sized (min k 29 + 1) Opened"

text \<open>\<dots> a file of constant size that its writer still holds at the second round, \<dots>\<close>

definition locked_once :: "nat \<Rightarrow> probe" where
  "locked_once k = (if k = 1 then Sized 7 (OpenRaises PermissionError) else Sized 7 Opened)"

text \<open>\<dots> a file renamed away between the existence check and the size read, \<dots>\<close>

definition vanishing :: "nat \<Rightarrow> probe" where
  "vanishing k = GetsizeRaises FileNotFoundError"

text \<open>\<dots> and a file deleted between the size read and the attempt to open it.\<close>

definition unopenable :: "nat \<Rightarrow> probe" where
  "unopenable k = Sized 5 (OpenRaises FileNotFoundError)"

definition no_faults :: faults where
  "no_faults = \<lparr>on_rename = RenameOk, on_copy = CopyOk, on_unlink = UnlinkOk\<rparr>"

definition undisturbed :: "fs \<Rightarrow> fs" where
  "undisturbed fs = fs"

definition quiet :: env where
  "quiet = \<lparr>probes = steady, during_sleep = undisturbed, move_faults = no_faults\<rparr>"

definition invoice_rules :: "string \<rightharpoonup> path" where
  "invoice_rules = [''[invoice]'' \<mapsto> ''/dest/invoices'']"

definition watch_fs :: fs where
  "watch_fs = [(''/watch'', Dir), (''/watch/[Invoice] march.pdf'', File ''pdf bytes''),
     (''/watch/report.pdf'', File ''report''), (''/dest/invoices'', Dir)]"






definition invoice_event :: event where
  "invoice_event = \<lparr>is_directory = False, src_path = ''/watch/[Invoice] march.pdf''\<rparr>"

text \<open>Worlds: a download that outlasts the wait, \<dots>\<close>

definition slow :: env where
  "slow = \<lparr>probes = growing29, during_sleep = undisturbed, move_faults = no_faults\<rparr>"

text \<open>\<dots> a file that is renamed while the loop looks at it, \<dots>\<close>

definition racing :: env where
  "racing = \<lparr>probes = vanishing, during_sleep = undisturbed, move_faults = no_faults\<rparr>"

text \<open>\<dots> a file that appears at the fourth round, \<dots>\<close>

definition late :: "nat \<Rightarrow> probe" where
  "late k = (if k < 3 then Absent else Sized 12 Opened)"

text \<open>
  \<dots> a destination on another volume that fills up after three bytes, \<dots>
\<close>

definition cross_volume :: env where
  "cross_volume = \<lparr>probes = steady, during_sleep = undisturbed,
     move_faults = \<lparr>on_rename = RenameRaises OSError, on_copy = CopyInterrupted 3 OSError,
       on_unlink = UnlinkOk\<rparr>\<rparr>"

text \<open>
  \<dots> and another process that puts a file of the same name into the destination
  folder during the sleep of \<^verbatim>\<open>move_file\<close>.
\<close>

definition newcomer :: "fs \<Rightarrow> fs" where
  "newcomer fs = fs_write fs ''/dest/invoices/[Invoice] march.pdf'' (File ''another file'')"

definition raced :: env where
  "raced = \<lparr>probes = steady, during_sleep = newcomer, move_faults = no_faults\<rparr>"

section \<open>Properties\<close>

subsection \<open>Tag extraction\<close>

lemma lazy_dots_rbracket_found:
  "CHR '']'' \<notin> set X \<Longrightarrow> LF \<notin> set X \<Longrightarrow>
   lazy_dots_rbracket (X @ CHR '']'' # rest) = Some (X @ '']'')"
  by (induction X) auto

lemma lazy_dots_rbracket_line_feed:
  "CHR '']'' \<notin> set X \<Longrightarrow> lazy_dots_rbracket (X @ LF # rest) = None"
  by (induction X) (auto simp: LF_def)

lemma lazy_dots_rbracket_unclosed:
  "CHR '']'' \<notin> set s \<Longrightarrow> lazy_dots_rbracket s = None"
  by (induction s) auto

text \<open>
  Claim C1, as the code has it. A file name that starts with \<^verbatim>\<open>[\<close>, followed by
  characters \<open>X\<close> among which there is neither a closing bracket nor a line feed, followed
  by \<^verbatim>\<open>]\<close>, yields the bracketed text \<^verbatim>\<open>[X]\<close>, lower-cased, whatever follows. A line
  feed before the first closing bracket yields no tag: the pattern's \<^verbatim>\<open>.\<close> does not
  match a line feed. A name that does not start with \<^verbatim>\<open>[\<close> (it is empty, has no bracket,
  or has its first bracket later than position 0) yields no tag, and so does a name with
  no closing bracket.
\<close>

theorem extract_tag_leading_bracket:
  "(CHR '']'' \<notin> set X \<and> LF \<notin> set X \<longrightarrow>
      extract_tag lower (CHR ''['' # X @ CHR '']'' # rest) = Some (lower (CHR ''['' # X @ '']'')))
   \<and> (CHR '']'' \<notin> set Y \<longrightarrow> extract_tag lower (CHR ''['' # Y @ LF # rest') = None)
   \<and> ((\<forall>cs. name \<noteq> CHR ''['' # cs) \<longrightarrow> extract_tag lower name = None)
   \<and> (CHR '']'' \<notin> set open_name \<longrightarrow> extract_tag lower open_name = None)"
proof (intro conjI impI)
  assume "CHR '']'' \<notin> set X \<and> LF \<notin> set X"
  then show "extract_tag lower (CHR ''['' # X @ CHR '']'' # rest) = Some (lower (CHR ''['' # X @ '']''))"
    by (simp add: extract_tag_def re_match_TAG_PATTERN_def lazy_dots_rbracket_found)
next
  assume "CHR '']'' \<notin> set Y"
  then show "extract_tag lower (CHR ''['' # Y @ LF # rest') = None"
    by (simp add: extract_tag_def re_match_TAG_PATTERN_def lazy_dots_rbracket_line_feed)
next
  assume "\<forall>cs. name \<noteq> CHR ''['' # cs"
  then show "extract_tag lower name = None"
    by (cases name) (auto simp: extract_tag_def re_match_TAG_PATTERN_def)
next
  assume "CHR '']'' \<notin> set open_name"
  then show "extract_tag lower open_name = None"
    by (cases open_name) (auto simp: extract_tag_def re_match_TAG_PATTERN_def lazy_dots_rbracket_unclosed)
qed

theorem extract_tag_leading_bracket_witness:
  "extract_tag lower_ascii ''[Invoice] march.pdf'' = Some ''[invoice]''
   \<and> extract_tag lower_ascii (''[In'' @ LF # ''voice] march.pdf'') = None
   \<and> extract_tag lower_ascii ''report[x].pdf'' = None
   \<and> extract_tag lower_ascii ''[open'' = None"
  using extract_tag_leading_bracket [of "''Invoice''" lower_ascii "'' march.pdf''" "''In''" "''voice] march.pdf''"
     "''report[x].pdf''" "''[open''"]
  by (simp add: lower_ascii_def lower_ascii_char_def LF_def)

text \<open>
  Claim C1 as stated lets any characters stand between the brackets. With a line feed
  among them the name starts with \<^verbatim>\<open>[\<close> and has a first \<^verbatim>\<open>]\<close>, yet there is no tag.
\<close>

theorem extract_tag_line_feed_counterexample:
  "extract_tag lower_ascii (''[a'' @ LF # ''b]x'') = None"
  by (simp add: extract_tag_def re_match_TAG_PATTERN_def LF_def)

subsection \<open>Paths\<close>

lemma rfind_absent: "c \<notin> set s \<Longrightarrow> rfind c s = - 1"
  by (simp add: rfind_def)

lemma rfind_last: "c \<notin> set suf \<Longrightarrow> rfind c (pre @ c # suf) = int (length pre)"
proof -
  assume a: "c \<notin> set suf"
  have "takeWhile (\<lambda>x. x \<noteq> c) (rev suf @ c # rev pre) = rev suf"
    using a by (subst takeWhile_append2) auto
  then show ?thesis by (simp add: rfind_def)
qed

lemma splitext_parts: "splitext p = (b, e) \<Longrightarrow> b @ e = p"
  by (auto simp: splitext_def Let_def split: if_splits)

lemma splitext_extension:
  assumes "CHR ''/'' \<notin> set stem" "CHR ''/'' \<notin> set suf" "CHR ''.'' \<notin> set suf"
    and "\<exists>c \<in> set stem. c \<noteq> CHR ''.''"
  shows "splitext (stem @ CHR ''.'' # suf) = (stem, CHR ''.'' # suf)"
  using assms by (simp add: splitext_def rfind_absent rfind_last)

lemma splitext_no_dot:
  "CHR ''/'' \<notin> set p \<Longrightarrow> CHR ''.'' \<notin> set p \<Longrightarrow> splitext p = (p, [])"
  by (simp add: splitext_def rfind_absent)

lemma splitext_leading_dots:
  assumes "set dots \<subseteq> {CHR ''.''}" "CHR ''/'' \<notin> set suf" "CHR ''.'' \<notin> set suf"
  shows "splitext (dots @ CHR ''.'' # suf) = (dots @ CHR ''.'' # suf, [])"
proof -
  have "CHR ''/'' \<notin> set dots" using assms(1) by auto
  moreover have "\<not> (\<exists>c \<in> set dots. c \<noteq> CHR ''.'')" using assms(1) by auto
  ultimately show ?thesis using assms(2,3)
    by (simp add: splitext_def rfind_absent rfind_last)
qed

lemma str_nat_digits: "set (str_nat n) \<subseteq> set ''0123456789''"
proof (induction n rule: str_nat.induct)
  case (1 n)
  have d: "\<And>k. k < 10 \<Longrightarrow> digit_char k \<in> set ''0123456789''"
    unfolding digit_char_def by (rule nth_mem) simp
  show ?case
  proof (cases "n < 10")
    case True
    then show ?thesis using d[of n] by (subst str_nat.simps) simp
  next
    case False
    then show ?thesis using "1.IH" d[of "n mod 10"] by (subst str_nat.simps) simp
  qed
qed

lemma str_nat_no_sep: "CHR ''/'' \<notin> set (str_nat n)"
  using str_nat_digits[of n] by auto

lemma unique_loop_free: "\<not> path_exists fs (unique_loop fs d b e p c)"
  by (induction fs d b e p c rule: unique_loop.induct) (simp add: unique_loop.simps)

lemma unique_loop_literal: "\<not> path_exists fs p \<Longrightarrow> unique_loop fs d b e p c = p"
  by (simp add: unique_loop.simps)

lemma unique_loop_numbered:
  "path_exists fs p \<Longrightarrow>
   \<exists>k\<ge>c. unique_loop fs d b e p c = numbered d b e k \<and>
          (\<forall>j. c \<le> j \<and> j < k \<longrightarrow> path_exists fs (numbered d b e j))"
proof (induction fs d b e p c rule: unique_loop.induct)
  case (1 fs d b e p c)
  show ?case
  proof (cases "path_exists fs (numbered d b e c)")
    case False
    with "1.prems" have "unique_loop fs d b e p c = numbered d b e c"
      by (simp add: unique_loop.simps)
    then show ?thesis by (intro exI[of _ c]) auto
  next
    case True
    from "1.IH"[OF "1.prems" True] obtain k where k: "c + 1 \<le> k"
      "unique_loop fs d b e (numbered d b e c) (c + 1) = numbered d b e k"
      "\<forall>j. c + 1 \<le> j \<and> j < k \<longrightarrow> path_exists fs (numbered d b e j)"
      by blast
    have "unique_loop fs d b e p c = numbered d b e k"
      using "1.prems" k(2) by (subst unique_loop.simps) simp
    moreover have "\<forall>j. c \<le> j \<and> j < k \<longrightarrow> path_exists fs (numbered d b e j)"
    proof (intro allI impI)
      fix j assume "c \<le> j \<and> j < k"
      then have "j = c \<or> (c + 1 \<le> j \<and> j < k)" by auto
      then show "path_exists fs (numbered d b e j)" using True k(3) by blast
    qed
    ultimately show ?thesis using k(1) by (intro exI[of _ k]) simp
  qed
qed

lemma unique_loop_first_free:
  assumes "path_exists fs p" "c \<le> K"
    and "\<forall>j. c \<le> j \<and> j < K \<longrightarrow> path_exists fs (numbered d b e j)"
    and "\<not> path_exists fs (numbered d b e K)"
  shows "unique_loop fs d b e p c = numbered d b e K"
proof -
  from unique_loop_numbered[OF assms(1), of c d b e] obtain k where k: "c \<le> k"
    "unique_loop fs d b e p c = numbered d b e k"
    "\<forall>j. c \<le> j \<and> j < k \<longrightarrow> path_exists fs (numbered d b e j)"
    by blast
  have free: "\<not> path_exists fs (numbered d b e k)"
    using unique_loop_free[of fs d b e p c] k(2) by simp
  have "\<not> k < K" using assms(3) k(1) free by blast
  moreover have "\<not> K < k" using k(3) assms(2,4) by blast
  ultimately show ?thesis using k(2) by simp
qed

lemma get_unique_filename_first_free:
  assumes "splitext file_name = (b, e)" "path_exists fs (join d file_name)" "1 \<le> K"
    and "collides_below fs d b e K" "\<not> path_exists fs (numbered d b e K)"
  shows "get_unique_filename fs d file_name = numbered d b e K"
proof -
  have "\<forall>j. 1 \<le> j \<and> j < K \<longrightarrow> path_exists fs (numbered d b e j)"
    using assms(4) by (simp add: collides_below_def)
  from unique_loop_first_free[OF assms(2,3) this assms(5)] show ?thesis
    by (simp add: get_unique_filename_def assms(1))
qed

lemma str_nat_small: "str_nat 1 = ''1''" "str_nat (Suc 0) = ''1''" "str_nat 2 = ''2''"
  by (simp_all add: str_nat.simps digit_char_def)

lemma collides_below_1: "collides_below fs d b e 1" "collides_below fs d b e (Suc 0)"
  by (simp_all add: collides_below_def)

lemma collides_below_2: "collides_below fs d b e 2 = path_exists fs (numbered d b e 1)"
proof -
  have "{1..<2::nat} = {1}" by auto
  then show ?thesis by (simp add: collides_below_def)
qed

subsection \<open>A free name in the destination folder\<close>

text \<open>
  Claim C3. For a file name (not empty, no separator in it) and any directory content,
  \<^verbatim>\<open>get_unique_filename\<close> returns a path that does not exist, made of the destination
  and one name without separator, so a path directly inside the destination. The name
  is the literal one when that is free. Otherwise the name is split in two parts
  \<open>base_name\<close> and \<open>ext\<close>, and the result is \<^verbatim>\<open>base_K ext\<close> for the first counter
  \<open>K \<ge> 1\<close> whose path is free, whatever \<open>K\<close> is: the counter has no upper bound. The
  function is total: the loop ends for every directory content.
\<close>

theorem get_unique_filename_free:
  assumes "file_name \<noteq> []" and "CHR ''/'' \<notin> set file_name"
    and "splitext file_name = (base_name, ext)"
  shows "\<not> path_exists fs (get_unique_filename fs destination file_name)
    \<and> (\<exists>n. n \<noteq> [] \<and> CHR ''/'' \<notin> set n \<and>
          get_unique_filename fs destination file_name = join destination n)
    \<and> base_name @ ext = file_name
    \<and> (\<not> path_exists fs (join destination file_name) \<longrightarrow>
          get_unique_filename fs destination file_name = join destination file_name)
    \<and> (path_exists fs (join destination file_name) \<and> 1 \<le> K \<and>
        collides_below fs destination base_name ext K \<and>
        \<not> path_exists fs (join destination (base_name @ ''_'' @ str_nat K @ ext)) \<longrightarrow>
          get_unique_filename fs destination file_name =
            join destination (base_name @ ''_'' @ str_nat K @ ext))"
proof (intro conjI impI)
  show "\<not> path_exists fs (get_unique_filename fs destination file_name)"
    by (simp add: get_unique_filename_def assms(3) unique_loop_free)
next
  show parts: "base_name @ ext = file_name"
    using assms(3) by (rule splitext_parts)
  show "\<exists>n. n \<noteq> [] \<and> CHR ''/'' \<notin> set n \<and>
          get_unique_filename fs destination file_name = join destination n"
  proof (cases "path_exists fs (join destination file_name)")
    case False
    then have "get_unique_filename fs destination file_name = join destination file_name"
      by (simp add: get_unique_filename_def assms(3) unique_loop_literal)
    then show ?thesis using assms(1,2) by (intro exI[of _ file_name]) simp
  next
    case True
    from unique_loop_numbered[OF True, of 1 destination base_name ext] obtain k where
      "unique_loop fs destination base_name ext (join destination file_name) 1 =
         numbered destination base_name ext k"
      by blast
    then have r: "get_unique_filename fs destination file_name =
        join destination (base_name @ ''_'' @ str_nat k @ ext)"
      by (simp add: get_unique_filename_def assms(3) numbered_def)
    have "set base_name \<union> set ext = set file_name"
      unfolding parts [symmetric] by simp
    then have "CHR ''/'' \<notin> set base_name" "CHR ''/'' \<notin> set ext"
      using assms(2) by auto
    then have "CHR ''/'' \<notin> set (base_name @ ''_'' @ str_nat k @ ext)"
      using str_nat_no_sep[of k] by simp
    moreover have "base_name @ ''_'' @ str_nat k @ ext \<noteq> []" by simp
    ultimately show ?thesis using r
      by (intro exI[of _ "base_name @ ''_'' @ str_nat k @ ext"]) simp
  qed
next
  assume "\<not> path_exists fs (join destination file_name)"
  then show "get_unique_filename fs destination file_name = join destination file_name"
    by (simp add: get_unique_filename_def assms(3) unique_loop_literal)
next
  assume a: "path_exists fs (join destination file_name) \<and> 1 \<le> K \<and>
        collides_below fs destination base_name ext K \<and>
        \<not> path_exists fs (join destination (base_name @ ''_'' @ str_nat K @ ext))"
  then have "\<not> path_exists fs (numbered destination base_name ext K)"
    by (simp add: numbered_def)
  with a have "get_unique_filename fs destination file_name = numbered destination base_name ext K"
    using get_unique_filename_first_free[OF assms(3)] by blast
  then show "get_unique_filename fs destination file_name =
            join destination (base_name @ ''_'' @ str_nat K @ ext)"
    by (simp add: numbered_def)
qed

theorem get_unique_filename_free_witness:
  "''report.txt'' \<noteq> [] \<and> CHR ''/'' \<notin> set ''report.txt''
   \<and> splitext ''report.txt'' = (''report'', ''.txt'')
   \<and> path_exists report_dir ''dest/report.txt''
   \<and> path_exists report_dir ''dest/report_1.txt''
   \<and> \<not> path_exists report_dir ''dest/report_2.txt''
   \<and> get_unique_filename report_dir ''dest'' ''report.txt'' = ''dest/report_2.txt''"
proof -
  have h1: "''report.txt'' \<noteq> []" and h2: "CHR ''/'' \<notin> set ''report.txt''" by simp_all
  have h3: "splitext ''report.txt'' = (''report'', ''.txt'')"
    by (simp add: splitext_def rfind_def)
  have e0: "path_exists report_dir ''dest/report.txt''"
    and e1: "path_exists report_dir ''dest/report_1.txt''"
    and e2: "\<not> path_exists report_dir ''dest/report_2.txt''"
    by (simp_all add: path_exists_def report_dir_def)
  have c: "collides_below report_dir ''dest'' ''report'' ''.txt'' 2"
    using e1 by (simp add: collides_below_2 numbered_def join_def str_nat_small)
  have "get_unique_filename report_dir ''dest'' ''report.txt'' =
      join ''dest'' (''report'' @ ''_'' @ str_nat 2 @ ''.txt'')"
    using get_unique_filename_free [OF h1 h2 h3, of report_dir "''dest''" 2] e0 e2 c
    by (simp add: join_def str_nat_small)
  then have "get_unique_filename report_dir ''dest'' ''report.txt'' = ''dest/report_2.txt''"
    by (simp add: join_def str_nat_small)
  with h3 e0 e1 e2 show ?thesis by simp
qed

text \<open>
  Claim C10, as the code has it. When a character other than a dot stands before the
  last dot of the name, the counter goes in front of that last dot and nowhere else.
  When the name has no dot, or nothing but dots before its last dot, the counter is
  appended to the whole name.
\<close>

theorem get_unique_filename_counter_place:
  assumes "path_exists fs (join destination file_name)" and "1 \<le> K"
  shows "(file_name = stem @ CHR ''.'' # suf \<and> CHR ''/'' \<notin> set file_name \<and>
          CHR ''.'' \<notin> set suf \<and> (\<exists>c \<in> set stem. c \<noteq> CHR ''.'') \<and>
          collides_below fs destination stem (CHR ''.'' # suf) K \<and>
          \<not> path_exists fs (join destination (stem @ ''_'' @ str_nat K @ CHR ''.'' # suf)) \<longrightarrow>
            get_unique_filename fs destination file_name =
              join destination (stem @ ''_'' @ str_nat K @ CHR ''.'' # suf))
    \<and> (CHR ''/'' \<notin> set file_name \<and>
        (CHR ''.'' \<notin> set file_name \<or>
         (\<exists>dots rest. file_name = dots @ CHR ''.'' # rest \<and> set dots \<subseteq> {CHR ''.''} \<and>
            CHR ''.'' \<notin> set rest)) \<and>
        collides_below fs destination file_name [] K \<and>
        \<not> path_exists fs (join destination (file_name @ ''_'' @ str_nat K)) \<longrightarrow>
          get_unique_filename fs destination file_name =
            join destination (file_name @ ''_'' @ str_nat K))"
proof (intro conjI impI)
  assume a: "file_name = stem @ CHR ''.'' # suf \<and> CHR ''/'' \<notin> set file_name \<and>
          CHR ''.'' \<notin> set suf \<and> (\<exists>c \<in> set stem. c \<noteq> CHR ''.'') \<and>
          collides_below fs destination stem (CHR ''.'' # suf) K \<and>
          \<not> path_exists fs (join destination (stem @ ''_'' @ str_nat K @ CHR ''.'' # suf))"
  then have "CHR ''/'' \<notin> set stem" "CHR ''/'' \<notin> set suf" by auto
  then have "splitext file_name = (stem, CHR ''.'' # suf)"
    using a splitext_extension[of stem suf] by simp
  moreover have "\<not> path_exists fs (numbered destination stem (CHR ''.'' # suf) K)"
    using a by (simp add: numbered_def)
  ultimately have "get_unique_filename fs destination file_name =
      numbered destination stem (CHR ''.'' # suf) K"
    using get_unique_filename_first_free[OF _ assms] a by simp
  then show "get_unique_filename fs destination file_name =
      join destination (stem @ ''_'' @ str_nat K @ CHR ''.'' # suf)"
    by (simp add: numbered_def)
next
  assume a: "CHR ''/'' \<notin> set file_name \<and>
        (CHR ''.'' \<notin> set file_name \<or>
         (\<exists>dots rest. file_name = dots @ CHR ''.'' # rest \<and> set dots \<subseteq> {CHR ''.''} \<and>
            CHR ''.'' \<notin> set rest)) \<and>
        collides_below fs destination file_name [] K \<and>
        \<not> path_exists fs (join destination (file_name @ ''_'' @ str_nat K))"
  have "splitext file_name = (file_name, [])"
  proof (cases "CHR ''.'' \<in> set file_name")
    case False
    then show ?thesis using a by (simp add: splitext_no_dot)
  next
    case True
    with a obtain dots rest where "file_name = dots @ CHR ''.'' # rest"
      "set dots \<subseteq> {CHR ''.''}" "CHR ''.'' \<notin> set rest"
      by blast
    moreover from this a have "CHR ''/'' \<notin> set rest" by auto
    ultimately show ?thesis using splitext_leading_dots[of dots rest] by simp
  qed
  moreover have "\<not> path_exists fs (numbered destination file_name [] K)"
    using a by (simp add: numbered_def)
  ultimately have "get_unique_filename fs destination file_name =
      numbered destination file_name [] K"
    using get_unique_filename_first_free[OF _ assms] a by simp
  then show "get_unique_filename fs destination file_name =
      join destination (file_name @ ''_'' @ str_nat K)"
    by (simp add: numbered_def)
qed

theorem get_unique_filename_counter_place_witness:
  "path_exists archive_dir ''dest/archive.tar.gz''
   \<and> \<not> path_exists archive_dir ''dest/archive.tar_1.gz''
   \<and> get_unique_filename archive_dir ''dest'' ''archive.tar.gz'' = ''dest/archive.tar_1.gz''
   \<and> path_exists archive_dir ''dest/notes''
   \<and> \<not> path_exists archive_dir ''dest/notes_1''
   \<and> get_unique_filename archive_dir ''dest'' ''notes'' = ''dest/notes_1''"
proof -
  have e0: "path_exists archive_dir (join ''dest'' ''archive.tar.gz'')"
    and f0: "path_exists archive_dir (join ''dest'' ''notes'')"
    by (simp_all add: path_exists_def archive_dir_def join_def)
  have e1: "\<not> path_exists archive_dir ''dest/archive.tar_1.gz''"
    and f1: "\<not> path_exists archive_dir ''dest/notes_1''"
    by (simp_all add: path_exists_def archive_dir_def)
  have one: "(1::nat) \<le> 1" by simp
  have "get_unique_filename archive_dir ''dest'' ''archive.tar.gz'' =
      join ''dest'' (''archive.tar'' @ ''_'' @ str_nat 1 @ CHR ''.'' # ''gz'')"
    using get_unique_filename_counter_place [OF e0 one, of "''archive.tar''" "''gz''"] e1
    by (simp add: collides_below_1 join_def str_nat_small)
  then have a: "get_unique_filename archive_dir ''dest'' ''archive.tar.gz'' = ''dest/archive.tar_1.gz''"
    by (simp add: join_def str_nat_small)
  have "get_unique_filename archive_dir ''dest'' ''notes'' =
      join ''dest'' (''notes'' @ ''_'' @ str_nat 1)"
    using get_unique_filename_counter_place [OF f0 one] f1
    by (simp add: collides_below_1 join_def str_nat_small)
  then have b: "get_unique_filename archive_dir ''dest'' ''notes'' = ''dest/notes_1''"
    by (simp add: join_def str_nat_small)
  from a b e0 e1 f0 f1 show ?thesis by (simp add: join_def)
qed

text \<open>
  Claim C10 as stated speaks of every name with more than one dot. The name
  \<^verbatim>\<open>..bashrc\<close> has two, and the counter is not put before its last dot:
  \<^verbatim>\<open>os.path.splitext\<close> skips leading dots, so the name has no extension.
\<close>

theorem get_unique_filename_leading_dots_counterexample:
  "get_unique_filename dotfile_dir ''dest'' ''..bashrc'' = ''dest/..bashrc_1''
   \<and> get_unique_filename dotfile_dir ''dest'' ''..bashrc'' \<noteq> ''dest/._1.bashrc''"
  by (simp add: get_unique_filename_def dotfile_dir_def splitext_def rfind_def join_def
      unique_loop.simps path_exists_def numbered_def str_nat_small)

subsection \<open>Waiting for the download\<close>

text \<open>
  With a positive interval the loop returns, whatever the file does. Round \<open>k\<close> begins
  at elapsed time \<open>k * interval\<close>, so the last round begun is one that began before the
  timeout.
\<close>

lemma wait_post_step:
  assumes "wait_post obs fp timeout interval (Suc k) y" and "int k * interval < timeout"
  shows "wait_post obs fp timeout interval k y"
proof -
  obtain r n out where y: "y = (r, n, out)" by (cases y)
  have "k < n \<longrightarrow> (int n - 1) * interval < timeout"
    using assms y by (cases "n = Suc k") (auto simp: wait_post_def)
  then show ?thesis using assms(1) y
    by (auto simp: wait_post_def split: sum.splits bool.splits)
qed

lemma wait_loop_returns:
  assumes "0 < interval"
  shows "elapsed = int k * interval \<Longrightarrow>
    \<exists>y. wait_loop obs fp timeout interval prev elapsed k = Some y \<and>
        wait_post obs fp timeout interval k y"
proof (induction "nat (timeout - elapsed)" arbitrary: elapsed k prev rule: less_induct)
  case less
  show ?case
  proof (cases "elapsed < timeout")
    case False
    then have "wait_loop obs fp timeout interval prev elapsed k =
        Some (Inr False, k, [timeout_message fp])"
      by (subst wait_loop.simps) simp
    then show ?thesis using False less.prems by (simp add: wait_post_def)
  next
    case True
    have smaller: "nat (timeout - (elapsed + interval)) < nat (timeout - elapsed)"
      using True assms by simp
    have next_time: "elapsed + interval = int (Suc k) * interval"
      using less.prems by (simp add: algebra_simps)
    have here: "int k * interval < timeout"
      using True less.prems by simp
    have retry: ?thesis
      if "wait_loop obs fp timeout interval prev elapsed k =
            wait_loop obs fp timeout interval prev' (elapsed + interval) (Suc k)" for prev'
    proof -
      from less.hyps [OF smaller next_time, of prev'] obtain y where
        "wait_loop obs fp timeout interval prev' (elapsed + interval) (Suc k) = Some y"
        "wait_post obs fp timeout interval (Suc k) y"
        by blast
      then show ?thesis using that here by (auto intro: wait_post_step)
    qed
    show ?thesis
    proof (cases "obs k")
      case Absent
      then show ?thesis using True assms by (intro retry [of prev]) (subst wait_loop.simps, simp)
    next
      case (GetsizeRaises e)
      then have "wait_loop obs fp timeout interval prev elapsed k = Some (Inl e, k + 1, [])"
        using True by (subst wait_loop.simps) simp
      then show ?thesis using here GetsizeRaises by (simp add: wait_post_def)
    next
      case (Sized sz attempt)
      show ?thesis
      proof (cases "int sz = prev \<and> attempt \<noteq> OpenRaises PermissionError")
        case False
        then show ?thesis using True Sized assms
          by (intro retry [of "int sz"]) (subst wait_loop.simps, auto split: open_result.splits)
      next
        case same: True
        show ?thesis
        proof (cases attempt)
          case Opened
          then have "wait_loop obs fp timeout interval prev elapsed k = Some (Inr True, k + 1, [])"
            using True Sized same by (subst wait_loop.simps) simp
          then show ?thesis using here by (simp add: wait_post_def)
        next
          case (OpenRaises e)
          then have "wait_loop obs fp timeout interval prev elapsed k = Some (Inl e, k + 1, [])"
            using True Sized same by (subst wait_loop.simps) simp
          then show ?thesis using here Sized OpenRaises same by (simp add: wait_post_def)
        qed
      qed
    qed
  qed
qed

text \<open>A \<open>True\<close> result rests on two size samples, whether or not the loop always ends.\<close>

lemma stable_after_skip:
  assumes "obs k = Absent" and "stable_after obs prev (Suc k) n"
  shows "stable_after obs prev k n"
proof -
  from assms(2) obtain sz where s: "Suc k < n" "obs (n - 1) = Sized sz Opened"
    "int sz = prev \<and> (\<forall>i. Suc k \<le> i \<and> i < n - 1 \<longrightarrow> obs i = Absent) \<or>
     (\<exists>j op. Suc k \<le> j \<and> j < n - 1 \<and> obs j = Sized sz op \<and>
        (\<forall>i. j < i \<and> i < n - 1 \<longrightarrow> obs i = Absent))"
    unfolding stable_after_def by blast
  from s(3) have "int sz = prev \<and> (\<forall>i. k \<le> i \<and> i < n - 1 \<longrightarrow> obs i = Absent) \<or>
     (\<exists>j op. k \<le> j \<and> j < n - 1 \<and> obs j = Sized sz op \<and>
        (\<forall>i. j < i \<and> i < n - 1 \<longrightarrow> obs i = Absent))"
  proof
    assume a: "int sz = prev \<and> (\<forall>i. Suc k \<le> i \<and> i < n - 1 \<longrightarrow> obs i = Absent)"
    have "\<forall>i. k \<le> i \<and> i < n - 1 \<longrightarrow> obs i = Absent"
    proof (intro allI impI)
      fix i assume "k \<le> i \<and> i < n - 1"
      then have "i = k \<or> (Suc k \<le> i \<and> i < n - 1)" by auto
      then show "obs i = Absent" using a assms(1) by blast
    qed
    then show ?thesis using a by blast
  next
    assume "\<exists>j op. Suc k \<le> j \<and> j < n - 1 \<and> obs j = Sized sz op \<and>
        (\<forall>i. j < i \<and> i < n - 1 \<longrightarrow> obs i = Absent)"
    then obtain j op where "Suc k \<le> j" "j < n - 1" "obs j = Sized sz op"
      "\<forall>i. j < i \<and> i < n - 1 \<longrightarrow> obs i = Absent"
      by blast
    then have "k \<le> j \<and> j < n - 1 \<and> obs j = Sized sz op \<and>
        (\<forall>i. j < i \<and> i < n - 1 \<longrightarrow> obs i = Absent)"
      by simp
    then show ?thesis by blast
  qed
  with s(1,2) show ?thesis unfolding stable_after_def by auto
qed

lemma stable_after_sample:
  assumes "obs k = Sized sz0 op0" and "stable_after obs (int sz0) (Suc k) n"
  shows "stable_after obs prev k n"
proof -
  from assms(2) obtain sz where s: "Suc k < n" "obs (n - 1) = Sized sz Opened"
    "int sz = int sz0 \<and> (\<forall>i. Suc k \<le> i \<and> i < n - 1 \<longrightarrow> obs i = Absent) \<or>
     (\<exists>j op. Suc k \<le> j \<and> j < n - 1 \<and> obs j = Sized sz op \<and>
        (\<forall>i. j < i \<and> i < n - 1 \<longrightarrow> obs i = Absent))"
    unfolding stable_after_def by blast
  from s(3) have "\<exists>j op. k \<le> j \<and> j < n - 1 \<and> obs j = Sized sz op \<and>
        (\<forall>i. j < i \<and> i < n - 1 \<longrightarrow> obs i = Absent)"
  proof
    assume a: "int sz = int sz0 \<and> (\<forall>i. Suc k \<le> i \<and> i < n - 1 \<longrightarrow> obs i = Absent)"
    then have "obs k = Sized sz op0" using assms(1) by simp
    moreover have "k < n - 1" using s(1) by simp
    moreover have "\<forall>i. k < i \<and> i < n - 1 \<longrightarrow> obs i = Absent" using a by (simp add: Suc_le_eq)
    ultimately have "k \<le> k \<and> k < n - 1 \<and> obs k = Sized sz op0 \<and>
        (\<forall>i. k < i \<and> i < n - 1 \<longrightarrow> obs i = Absent)"
      by simp
    then show ?thesis by blast
  next
    assume "\<exists>j op. Suc k \<le> j \<and> j < n - 1 \<and> obs j = Sized sz op \<and>
        (\<forall>i. j < i \<and> i < n - 1 \<longrightarrow> obs i = Absent)"
    then obtain j op where "Suc k \<le> j" "j < n - 1" "obs j = Sized sz op"
      "\<forall>i. j < i \<and> i < n - 1 \<longrightarrow> obs i = Absent"
      by blast
    then have "k \<le> j \<and> j < n - 1 \<and> obs j = Sized sz op \<and>
        (\<forall>i. j < i \<and> i < n - 1 \<longrightarrow> obs i = Absent)"
      by simp
    then show ?thesis by blast
  qed
  with s(1,2) show ?thesis unfolding stable_after_def by auto
qed

lemma wait_loop_stable_sample:
  assumes "wait_loop obs fp timeout interval prev elapsed k = Some y"
  shows "fst y = Inr True \<longrightarrow> stable_after obs prev k (fst (snd y))"
  using assms
proof (induction rule: wait_loop.raw_induct [rotated -1, consumes 1, case_names step])
  case 1: (step loop obs fp timeout interval prev elapsed k y)
  show ?case
  proof (cases "elapsed < timeout")
    case False
    with 1(2) show ?thesis by auto
  next
    case True
    show ?thesis
    proof (cases "obs k")
      case Absent
      show ?thesis
      proof (cases "interval < 0")
        case True
        with \<open>elapsed < timeout\<close> Absent 1(2) show ?thesis by auto
      next
        case False
        with \<open>elapsed < timeout\<close> Absent 1(2)
        have "loop obs fp timeout interval prev (elapsed + interval) (k + 1) = Some y"
          by simp
        from 1(1)[OF this] Absent show ?thesis by (auto intro: stable_after_skip)
      qed
    next
      case (GetsizeRaises e)
      with True 1(2) show ?thesis by auto
    next
      case (Sized sz attempt)
      have retry: ?thesis
        if "(if interval < 0 then Some (Inl ValueError, k + 1, [])
             else loop obs fp timeout interval (int sz) (elapsed + interval) (k + 1)) = Some y"
      proof (cases "interval < 0")
        case True
        with that show ?thesis by auto
      next
        case False
        with that have "loop obs fp timeout interval (int sz) (elapsed + interval) (k + 1) = Some y"
          by simp
        from 1(1)[OF this] Sized show ?thesis by (auto intro: stable_after_sample)
      qed
      show ?thesis
      proof (cases "int sz = prev")
        case False
        with True Sized 1(2) show ?thesis by (intro retry) simp
      next
        case same: True
        show ?thesis
        proof (cases attempt)
          case Opened
          with True Sized same 1(2) have "y = (Inr True, k + 1, [])" by simp
          then show ?thesis using Sized Opened same by (auto simp: stable_after_def)
        next
          case (OpenRaises e)
          show ?thesis
          proof (cases "e = PermissionError")
            case True
            with \<open>elapsed < timeout\<close> Sized same OpenRaises 1(2) show ?thesis by (intro retry) simp
          next
            case False
            with \<open>elapsed < timeout\<close> Sized same OpenRaises 1(2) show ?thesis by auto
          qed
        qed
      qed
    qed
  qed
qed

text \<open>
  A file that is there at every round, whose size changes from each of the first
  \<open>N + 1\<close> rounds to the next and then stays, and that can be opened at round \<open>N + 2\<close>.
\<close>

lemma wait_loop_settles:
  assumes "0 < interval" and "(int N + 1) * interval < timeout"
    and "\<forall>j \<le> N + 1. obs j = Sized (sz j) (op j)"
    and "\<forall>j < N. sz j \<noteq> sz (j + 1)"
    and "sz (N + 1) = sz N" and "op (N + 1) = Opened"
  shows "k + d = N + 1 \<Longrightarrow> prev = (if k = 0 then - 1 else int (sz (k - 1))) \<Longrightarrow>
    wait_loop obs fp timeout interval prev (int k * interval) k = Some (Inr True, N + 2, [])"
proof (induction d arbitrary: k prev)
  case 0
  then have k: "k = N + 1" by simp
  have "int k * interval < timeout" using assms(2) k by (simp add: algebra_simps)
  moreover have "obs k = Sized (sz N) Opened" using assms(3,5,6) k by simp
  moreover have "prev = int (sz N)" using 0 k by simp
  ultimately show ?case using k by (subst wait_loop.simps) simp
next
  case (Suc d)
  then have k: "k \<le> N" by simp
  have "int k * interval \<le> (int N + 1) * interval"
    using k assms(1) by (intro mult_right_mono) simp_all
  then have now: "int k * interval < timeout" using assms(2) by simp
  have here: "obs k = Sized (sz k) (op k)" using assms(3) k by simp
  have differs: "int (sz k) \<noteq> prev"
  proof (cases "k = 0")
    case True
    then show ?thesis using Suc.prems by simp
  next
    case False
    then have "k - 1 < N" using k by simp
    then have "sz (k - 1) \<noteq> sz (k - 1 + 1)" using assms(4) by blast
    then show ?thesis using False Suc.prems by simp
  qed
  have "wait_loop obs fp timeout interval (int (sz k)) (int (Suc k) * interval) (Suc k) =
      Some (Inr True, N + 2, [])"
    using Suc.prems by (intro Suc.IH) simp_all
  moreover have "int k * interval + interval = int (Suc k) * interval"
    by (simp add: algebra_simps)
  ultimately show ?case using now here differs assms(1)
    by (subst wait_loop.simps) simp
qed

lemma map_of_fs_remove: "map_of (fs_remove fs p) q = (if q = p then None else map_of fs q)"
  unfolding fs_remove_def by (induction fs) auto

lemma map_of_fs_write: "map_of (fs_write fs p n) q = (if q = p then Some n else map_of fs q)"
  by (simp add: fs_write_def map_of_fs_remove)

lemma wait_for_download_cases:
  assumes "0 < interval"
  shows "\<exists>n. (0 < n \<longrightarrow> (int n - 1) * interval < timeout) \<and>
     (wait_for_download obs fp timeout interval = Some (Inr True, n, []) \<and> 0 < n
      \<or> wait_for_download obs fp timeout interval = Some (Inr False, n, [timeout_message fp]) \<and>
          timeout \<le> int n * interval
      \<or> (\<exists>e. wait_for_download obs fp timeout interval = Some (Inl e, n, []) \<and> 0 < n \<and>
            fatal (obs (n - 1))))"
proof -
  have "(0::int) = int 0 * interval" by simp
  from wait_loop_returns[OF assms this, of obs fp timeout "- 1"] obtain r n out where
    r: "wait_for_download obs fp timeout interval = Some (r, n, out)"
    and p: "wait_post obs fp timeout interval 0 (r, n, out)"
    unfolding wait_for_download_def by (metis prod_cases3)
  from p have n: "0 < n \<longrightarrow> (int n - 1) * interval < timeout"
    by (simp add: wait_post_def)
  show ?thesis
  proof (cases r)
    case (Inl e)
    with p have "out = []" "0 < n" "fatal (obs (n - 1))" by (simp_all add: wait_post_def)
    with r Inl n show ?thesis by (intro exI[of _ n]) simp
  next
    case (Inr b)
    show ?thesis
    proof (cases b)
      case True
      with Inr p have "out = []" "0 < n" by (simp_all add: wait_post_def)
      with r Inr True n show ?thesis by (intro exI[of _ n]) simp
    next
      case False
      with Inr p have "out = [timeout_message fp]" "timeout \<le> int n * interval"
        by (simp_all add: wait_post_def)
      with r Inr False n show ?thesis by (intro exI[of _ n]) simp
    qed
  qed
qed

lemma polls_bound:
  assumes "0 < interval" and "0 < n \<longrightarrow> (int n - 1) * interval < timeout"
  shows "int n \<le> max 0 ((timeout + interval - 1) div interval)"
proof (cases "0 < n")
  case False
  then show ?thesis by simp
next
  case True
  with assms(2) have "int n * interval \<le> timeout + interval - 1"
    by (simp add: algebra_simps)
  then have "(int n * interval) div interval \<le> (timeout + interval - 1) div interval"
    using assms(1) by (intro zdiv_mono1) simp_all
  then show ?thesis using assms(1) by simp
qed

lemma stable_afterD:
  assumes "stable_after obs prev k n"
  obtains s0 where "k < n" "obs (n - 1) = Sized s0 Opened"
    "int s0 = prev \<and> (\<forall>i. k \<le> i \<and> i < n - 1 \<longrightarrow> obs i = Absent) \<or>
     (\<exists>j a0. k \<le> j \<and> j < n - 1 \<and> obs j = Sized s0 a0 \<and>
        (\<forall>i. j < i \<and> i < n - 1 \<longrightarrow> obs i = Absent))"
  using assms unfolding stable_after_def by (elim conjE exE) 

lemma wait_for_download_stable_samples:
  assumes a: "wait_for_download obs fp timeout interval = Some (Inr True, n, out)"
  shows "2 \<le> n \<and>
      (\<exists>sz j op. j < n - 1 \<and> obs j = Sized sz op \<and> obs (n - 1) = Sized sz Opened \<and>
         (\<forall>i. j < i \<and> i < n - 1 \<longrightarrow> obs i = Absent))"
proof -
  from wait_loop_stable_sample[OF a[unfolded wait_for_download_def]]
  have "stable_after obs (- 1) 0 n" by simp
  then obtain s0 where s: "0 < n" "obs (n - 1) = Sized s0 Opened"
    "int s0 = - 1 \<and> (\<forall>i. 0 \<le> i \<and> i < n - 1 \<longrightarrow> obs i = Absent) \<or>
     (\<exists>j a0. 0 \<le> j \<and> j < n - 1 \<and> obs j = Sized s0 a0 \<and>
        (\<forall>i. j < i \<and> i < n - 1 \<longrightarrow> obs i = Absent))"
    by (rule stable_afterD)
  have "int s0 \<noteq> - 1" by simp
  with s(3) have "\<exists>j a0. 0 \<le> j \<and> j < n - 1 \<and> obs j = Sized s0 a0 \<and>
        (\<forall>i. j < i \<and> i < n - 1 \<longrightarrow> obs i = Absent)"
    by (elim disjE conjE) simp_all
  then obtain j a0 where j: "j < n - 1" "obs j = Sized s0 a0"
    "\<forall>i. j < i \<and> i < n - 1 \<longrightarrow> obs i = Absent"
    by (elim exE conjE)
  from j(1) have "2 \<le> n" by simp
  moreover have "\<exists>sz j op. j < n - 1 \<and> obs j = Sized sz op \<and> obs (n - 1) = Sized sz Opened \<and>
         (\<forall>i. j < i \<and> i < n - 1 \<longrightarrow> obs i = Absent)"
    using j s(2) by (intro exI[of _ s0] exI[of _ j] exI[of _ a0]) simp
  ultimately show ?thesis by (rule conjI)
qed

text \<open>
  Claim C2, as the code has it. A \<open>True\<close> result never comes from the first size
  sample: it takes at least two rounds, the last of which can open the file and finds
  the size that the size sample before it has found, with nothing but rounds that
  found the path absent in between; this holds for every size, zero included, since
  the loop starts from the previous size \<open>-1\<close>, and for every timeout and interval. A file that is there at every
  round, whose size changes over \<open>N\<close> intervals and then stays (\<open>N = 0\<close>: constant from
  the first round on), and that can be opened at round \<open>N + 2\<close>, is declared stable at
  round \<open>N + 2\<close> exactly, provided that round begins before the timeout:
  \<open>(N + 1) * interval < timeout\<close>.
\<close>

theorem wait_for_download_two_samples:
  "(wait_for_download obs fp timeout interval = Some (Inr True, n, out) \<longrightarrow>
      2 \<le> n \<and>
      (\<exists>sz j op. j < n - 1 \<and> obs j = Sized sz op \<and> obs (n - 1) = Sized sz Opened \<and>
         (\<forall>i. j < i \<and> i < n - 1 \<longrightarrow> obs i = Absent)))
   \<and> (0 < interval' \<and> (int N + 1) * interval' < timeout' \<and>
       (\<forall>j \<le> N + 1. grows j = Sized (sz j) (op j)) \<and>
       (\<forall>j < N. sz j \<noteq> sz (j + 1)) \<and> sz (N + 1) = sz N \<and> op (N + 1) = Opened \<longrightarrow>
         wait_for_download grows fp timeout' interval' = Some (Inr True, N + 2, []))"
proof (rule conjI; rule impI)
  assume a: "wait_for_download obs fp timeout interval = Some (Inr True, n, out)"
  then show "2 \<le> n \<and>
      (\<exists>sz j op. j < n - 1 \<and> obs j = Sized sz op \<and> obs (n - 1) = Sized sz Opened \<and>
         (\<forall>i. j < i \<and> i < n - 1 \<longrightarrow> obs i = Absent))"
    by (rule wait_for_download_stable_samples)
next
  assume a: "0 < interval' \<and> (int N + 1) * interval' < timeout' \<and>
       (\<forall>j \<le> N + 1. grows j = Sized (sz j) (op j)) \<and>
       (\<forall>j < N. sz j \<noteq> sz (j + 1)) \<and> sz (N + 1) = sz N \<and> op (N + 1) = Opened"
  then have "wait_loop grows fp timeout' interval' (- 1) (int 0 * interval') 0 =
      Some (Inr True, N + 2, [])"
    by (intro wait_loop_settles[where d = "N + 1" and sz = sz and op = op]) simp_all
  then show "wait_for_download grows fp timeout' interval' = Some (Inr True, N + 2, [])"
    by (simp add: wait_for_download_def)
qed

theorem wait_for_download_two_samples_witness:
  "wait_for_download steady ''/w/a.bin'' 30 1 = Some (Inr True, 2, [])
   \<and> steady 0 = Sized 0 Opened \<and> steady 1 = Sized 0 Opened
   \<and> (0::int) < 1 \<and> (int 0 + 1) * 1 < (30::int)
   \<and> steady_sizes (0 + 1) = steady_sizes 0 \<and> always_opened (0 + 1) = Opened"
proof -
  have g: "\<forall>j \<le> 0 + 1. steady j = Sized (steady_sizes j) (always_opened j)"
    by (simp add: steady_def steady_sizes_def always_opened_def)
  have d: "\<forall>j < 0. steady_sizes j \<noteq> steady_sizes (j + 1)" by simp
  have e: "steady_sizes (0 + 1) = steady_sizes 0" "always_opened (0 + 1) = Opened"
    by (simp_all add: steady_sizes_def always_opened_def)
  have t: "(0::int) < 1" "(int 0 + 1) * 1 < (30::int)" by simp_all
  have r: "wait_for_download steady ''/w/a.bin'' 30 1 = Some (Inr True, 0 + 2, [])"
    using wait_for_download_two_samples [of steady "''/w/a.bin''" 30 1 2 "[]" 1 0 30 steady
        steady_sizes always_opened] g d e t
    by blast
  have s: "steady 0 = Sized 0 Opened" "steady 1 = Sized 0 Opened" by (simp_all add: steady_def)
  from r s e t show ?thesis by simp
qed

text \<open>
  Claim C2 as stated has no proviso. With the default timeout of 30 and interval of 1,
  a file that grows for 29 intervals and then stays is never declared stable: round 31
  does not take place. A file of constant size that is still locked at the second
  round is declared stable at the third.
\<close>

theorem wait_for_download_timeout_counterexample:
  "wait_for_download growing29 ''/w/a.bin'' 30 1 =
     Some (Inr False, 30, [timeout_message ''/w/a.bin''])
   \<and> wait_for_download locked_once ''/w/a.bin'' 30 1 = Some (Inr True, 3, [])"
  by (simp add: wait_for_download_def wait_loop.simps growing29_def locked_once_def)

subsection \<open>The handler\<close>

lemma wait_for_download_stable_silent:
  assumes "wait_for_download obs fp 30 1 = Some (Inr True, polls, out)"
  shows "out = []"
  using wait_for_download_cases[of 1 30 obs fp] assms by auto





lemma steady_stable: "wait_for_download steady p 30 1 = Some (Inr True, 2, [])"
  by (simp add: wait_for_download_def wait_loop.simps steady_def)

lemma basenames:
  "basename ''/watch/report.pdf'' = ''report.pdf''"
  "basename ''/watch/[Memo] notes.txt'' = ''[Memo] notes.txt''"
  "basename ''/watch/[Invoice] march.pdf'' = ''[Invoice] march.pdf''"
  by (simp_all add: basename_def rfind_def)

lemma tags:
  "extract_tag lower_ascii ''report.pdf'' = None"
  "extract_tag lower_ascii ''[Memo] notes.txt'' = Some ''[memo]''"
  "extract_tag lower_ascii ''[Invoice] march.pdf'' = Some ''[invoice]''"
  by (simp_all add: extract_tag_def re_match_TAG_PATTERN_def lower_ascii_def lower_ascii_char_def LF_def)



subsection \<open>The bound on the wait\<close>

text \<open>
  The wait is bounded when nothing goes wrong. For an integer timeout, a positive
  integer interval and every behaviour of the file in which no size read fails and no
  attempt to open the file fails with anything but a lock (\<^verbatim>\<open>PermissionError\<close>), the
  check returns after at most \<open>\<lceil>timeout / interval\<rceil>\<close> rounds, 30 with the
  defaults. It returns \<open>True\<close> and prints nothing, or it returns \<open>False\<close> once the
  elapsed time has reached the timeout and has printed one line, which names the path.
  After \<open>False\<close> the handler leaves the file system as it was.
\<close>

theorem wait_for_download_terminates:
  assumes "0 < interval" and "\<forall>j. \<not> fatal (obs j)"
  shows "(\<exists>n. int n \<le> max 0 ((timeout + interval - 1) div interval) \<and>
       (wait_for_download obs fp timeout interval = Some (Inr True, n, []) \<or>
        wait_for_download obs fp timeout interval = Some (Inr False, n, [timeout_message fp]) \<and>
          timeout \<le> int n * interval))
    \<and> (\<not> is_directory ev \<and>
        wait_for_download (probes world) (src_path ev) 30 1 = Some (Inr False, polls, out) \<longrightarrow>
          on_created lower world sorting_rules fs ev =
            Some \<lparr>fs_after = fs, raised = None, printed = out\<rparr>)"
proof (rule conjI)
  from wait_for_download_cases[OF assms(1), of timeout obs fp] obtain n where
    n: "0 < n \<longrightarrow> (int n - 1) * interval < timeout"
    and c: "wait_for_download obs fp timeout interval = Some (Inr True, n, []) \<and> 0 < n
      \<or> wait_for_download obs fp timeout interval = Some (Inr False, n, [timeout_message fp]) \<and>
          timeout \<le> int n * interval
      \<or> (\<exists>e. wait_for_download obs fp timeout interval = Some (Inl e, n, []) \<and> 0 < n \<and>
            fatal (obs (n - 1)))"
    by blast
  have b: "int n \<le> max 0 ((timeout + interval - 1) div interval)"
    using assms(1) n by (rule polls_bound)
  from c assms(2) have "wait_for_download obs fp timeout interval = Some (Inr True, n, []) \<or>
        wait_for_download obs fp timeout interval = Some (Inr False, n, [timeout_message fp]) \<and>
          timeout \<le> int n * interval"
    by blast
  with b show "\<exists>n. int n \<le> max 0 ((timeout + interval - 1) div interval) \<and>
       (wait_for_download obs fp timeout interval = Some (Inr True, n, []) \<or>
        wait_for_download obs fp timeout interval = Some (Inr False, n, [timeout_message fp]) \<and>
          timeout \<le> int n * interval)"
    by (intro exI[of _ n]) simp
next
  show "\<not> is_directory ev \<and>
        wait_for_download (probes world) (src_path ev) 30 1 = Some (Inr False, polls, out) \<longrightarrow>
          on_created lower world sorting_rules fs ev =
            Some \<lparr>fs_after = fs, raised = None, printed = out\<rparr>"
    by (simp add: on_created_def)
qed

lemma growing29_timeout:
  "wait_for_download growing29 p 30 1 = Some (Inr False, 30, [timeout_message p])"
  by (simp add: wait_for_download_def wait_loop.simps growing29_def)

theorem wait_for_download_terminates_witness:
  "(0::int) < 1 \<and> (\<forall>j. \<not> fatal (growing29 j))
   \<and> \<not> is_directory invoice_event
   \<and> wait_for_download (probes slow) (src_path invoice_event) 30 1 =
       Some (Inr False, 30, [timeout_message ''/watch/[Invoice] march.pdf''])
   \<and> on_created lower_ascii slow invoice_rules watch_fs invoice_event =
       Some \<lparr>fs_after = watch_fs, raised = None,
             printed = [timeout_message ''/watch/[Invoice] march.pdf'']\<rparr>"
proof -
  have i: "(0::int) < 1" by simp
  have f: "\<forall>j. \<not> fatal (growing29 j)" by (simp add: growing29_def)
  have d: "\<not> is_directory invoice_event" by (simp add: invoice_event_def)
  have w: "wait_for_download (probes slow) (src_path invoice_event) 30 1 =
       Some (Inr False, 30, [timeout_message ''/watch/[Invoice] march.pdf''])"
    by (simp add: slow_def invoice_event_def growing29_timeout)
  have "on_created lower_ascii slow invoice_rules watch_fs invoice_event =
       Some \<lparr>fs_after = watch_fs, raised = None,
             printed = [timeout_message ''/watch/[Invoice] march.pdf'']\<rparr>"
    using wait_for_download_terminates [OF i f, where ev = invoice_event and world = slow] d w
    by blast
  with i f d w show ?thesis by blast
qed

text \<open>
  Claim C5 on the code. The claim speaks of every behaviour of the observed file. With
  the defaults, a file that goes away between the existence check and the size read
  ends the check at its first round, and a file that goes away between the size read
  and the attempt to open it ends the check at its second round: with an error each
  time, neither stable nor timed out, and with no line printed. The code retries an
  absent path and a locked file, and misses these two (the slip of claim C8).
\<close>

theorem wait_for_download_read_error:
  "wait_for_download vanishing ''/watch/[Invoice] march.pdf'' 30 1 =
     Some (Inl FileNotFoundError, 1, [])
   \<and> wait_for_download unopenable ''/watch/[Invoice] march.pdf'' 30 1 =
     Some (Inl FileNotFoundError, 2, [])"
  by (simp add: wait_for_download_def wait_loop.simps vanishing_def unopenable_def)

text \<open>
  Claim C8 on the code. A size read that fails is not retried: the error leaves
  \<^verbatim>\<open>wait_for_download\<close> and the handler at once. A path that is absent is retried, as
  the claim says: the file that appears at the fourth round is declared stable at the
  fifth.
\<close>

theorem on_created_getsize_error:
  "on_created lower_ascii racing invoice_rules watch_fs invoice_event =
     Some \<lparr>fs_after = watch_fs, raised = Some FileNotFoundError, printed = []\<rparr>
   \<and> wait_for_download late ''/watch/a.bin'' 30 1 = Some (Inr True, 5, [])"
  by (simp add: on_created_def racing_def invoice_event_def wait_for_download_def
      wait_loop.simps vanishing_def late_def)

subsection \<open>Moving the file\<close>

lemma copy_then_unlink_source:
  "copy_then_unlink f fs src source real_dst = (fs', Some e) \<Longrightarrow> map_of fs' src = map_of fs src"
  by (auto simp: copy_then_unlink_def map_of_fs_write
      split: if_splits copy_result.splits unlink_result.splits)

lemma shutil_move_failure_source:
  "shutil_move f fs src dst = (fs', Some e) \<Longrightarrow> map_of fs' src = map_of fs src"
  by (auto simp: shutil_move_def Let_def dest: copy_then_unlink_source
      split: if_splits option.splits rename_result.splits)

lemma copy_then_unlink_success:
  "copy_then_unlink f fs src source real_dst = (fs', None) \<Longrightarrow>
   real_dst \<noteq> src \<and> fs' = fs_write (fs_remove fs src) real_dst source"
  by (auto simp: copy_then_unlink_def
      split: if_splits copy_result.splits unlink_result.splits)

lemma shutil_move_success:
  assumes "shutil_move f fs src dst = (fs', None)" and "\<not> isdir fs dst" and "dst \<noteq> src"
  shows "\<exists>source. map_of fs src = Some source \<and> fs' = fs_write (fs_remove fs src) dst source"
  using assms
  by (auto simp: shutil_move_def Let_def dest: copy_then_unlink_success
      split: if_splits option.splits rename_result.splits)

lemma get_unique_filename_is_free:
  "\<not> path_exists fs (get_unique_filename fs destination file_name)"
  by (cases "splitext file_name") (simp add: get_unique_filename_def unique_loop_free)

text \<open>
  Claim C6, as the code has it. \<^verbatim>\<open>move_file\<close> calls \<^verbatim>\<open>shutil.move\<close> once and handles
  nothing. When the move fails, the source is as it was when the move began, and the
  destination is as \<^verbatim>\<open>shutil.move\<close> left it: after a copy to another volume that
  stopped half way, the first bytes of the file are at the destination. When the move
  succeeds (the source was there when the destination was resolved, and no directory has
  taken the resolved path since), the source path no longer exists and the destination
  holds what the source held.
\<close>

theorem move_file_no_cleanup:
  assumes "path_exists fs destination_folder"
    and "new_path = get_unique_filename fs destination_folder (basename file_path)"
    and "fs1 = during_sleep world fs"
  shows "(move_file world fs file_path destination_folder = (fs', Some e) \<longrightarrow>
           map_of fs' file_path = map_of fs1 file_path)
    \<and> (map_of fs1 file_path = Some (File content) \<and> new_path \<noteq> file_path \<and>
        \<not> isdir fs1 new_path \<and> on_rename (move_faults world) = RenameRaises e0 \<and>
        on_copy (move_faults world) = CopyInterrupted n e \<longrightarrow>
          move_file world fs file_path destination_folder =
            (fs_write fs1 new_path (File (take n content)), Some e))
    \<and> (move_file world fs file_path destination_folder = (fs', None) \<and>
        path_exists fs file_path \<and> \<not> isdir fs1 new_path \<longrightarrow>
          \<not> path_exists fs' file_path \<and> path_exists fs1 file_path \<and>
          map_of fs' new_path = map_of fs1 file_path)"
proof (intro conjI impI)
  assume "move_file world fs file_path destination_folder = (fs', Some e)"
  then have "shutil_move (move_faults world) fs1 file_path new_path = (fs', Some e)"
    using assms by (simp add: move_file_def)
  then show "map_of fs' file_path = map_of fs1 file_path"
    by (rule shutil_move_failure_source)
next
  assume "map_of fs1 file_path = Some (File content) \<and> new_path \<noteq> file_path \<and>
        \<not> isdir fs1 new_path \<and> on_rename (move_faults world) = RenameRaises e0 \<and>
        on_copy (move_faults world) = CopyInterrupted n e"
  then have "shutil_move (move_faults world) fs1 file_path new_path =
      (fs_write fs1 new_path (File (take n content)), Some e)"
    by (simp add: shutil_move_def copy_then_unlink_def)
  then show "move_file world fs file_path destination_folder =
            (fs_write fs1 new_path (File (take n content)), Some e)"
    using assms by (simp add: move_file_def)
next
  assume a: "move_file world fs file_path destination_folder = (fs', None) \<and>
        path_exists fs file_path \<and> \<not> isdir fs1 new_path"
  then have m: "shutil_move (move_faults world) fs1 file_path new_path = (fs', None)"
    using assms by (simp add: move_file_def)
  have "new_path \<noteq> file_path"
    using a assms(2) get_unique_filename_is_free[of fs destination_folder "basename file_path"]
    by auto
  with shutil_move_success[OF m] a obtain source where
    s: "map_of fs1 file_path = Some source"
    "fs' = fs_write (fs_remove fs1 file_path) new_path source"
    by blast
  have 1: "\<not> path_exists fs' file_path"
    using s(2) \<open>new_path \<noteq> file_path\<close>
    by (simp add: path_exists_def map_of_fs_write map_of_fs_remove)
  have 2: "path_exists fs1 file_path" using s(1) by (simp add: path_exists_def)
  have 3: "map_of fs' new_path = map_of fs1 file_path"
    using s by (simp add: map_of_fs_write)
  from 1 show "\<not> path_exists fs' file_path" .
  from 2 show "path_exists fs1 file_path" .
  from 3 show "map_of fs' new_path = map_of fs1 file_path" .
qed

lemma invoice_new_path:
  "get_unique_filename watch_fs ''/dest/invoices'' (basename ''/watch/[Invoice] march.pdf'') =
     ''/dest/invoices/[Invoice] march.pdf''"
  by (simp add: get_unique_filename_def watch_fs_def splitext_def rfind_def join_def
      unique_loop.simps path_exists_def basename_def)

lemma move_file_invoice:
  "move_file world watch_fs ''/watch/[Invoice] march.pdf'' ''/dest/invoices'' =
     shutil_move (move_faults world) (during_sleep world watch_fs)
       ''/watch/[Invoice] march.pdf'' ''/dest/invoices/[Invoice] march.pdf''"
proof -
  have "path_exists watch_fs ''/dest/invoices''"
    by (simp add: path_exists_def watch_fs_def)
  then show ?thesis by (simp add: move_file_def invoice_new_path)
qed

theorem move_file_no_cleanup_witness:
  "path_exists watch_fs ''/dest/invoices''
   \<and> move_file cross_volume watch_fs ''/watch/[Invoice] march.pdf'' ''/dest/invoices'' =
       (fs_write watch_fs ''/dest/invoices/[Invoice] march.pdf'' (File ''pdf''), Some OSError)
   \<and> map_of (fs_write watch_fs ''/dest/invoices/[Invoice] march.pdf'' (File ''pdf''))
         ''/watch/[Invoice] march.pdf'' = Some (File ''pdf bytes'')
   \<and> move_file quiet watch_fs ''/watch/[Invoice] march.pdf'' ''/dest/invoices'' =
       ([(''/dest/invoices/[Invoice] march.pdf'', File ''pdf bytes''), (''/watch'', Dir),
         (''/watch/report.pdf'', File ''report''), (''/dest/invoices'', Dir)], None)
   \<and> \<not> path_exists [(''/dest/invoices/[Invoice] march.pdf'', File ''pdf bytes''), (''/watch'', Dir),
         (''/watch/report.pdf'', File ''report''), (''/dest/invoices'', Dir)]
         ''/watch/[Invoice] march.pdf''"
proof -
  have d: "path_exists watch_fs ''/dest/invoices''"
    by (simp add: path_exists_def watch_fs_def)
  have s1: "watch_fs = during_sleep cross_volume watch_fs" "watch_fs = during_sleep quiet watch_fs"
    by (simp_all add: cross_volume_def quiet_def undisturbed_def)
  have src: "map_of watch_fs ''/watch/[Invoice] march.pdf'' = Some (File ''pdf bytes'')"
    "path_exists watch_fs ''/watch/[Invoice] march.pdf''"
    by (simp_all add: watch_fs_def path_exists_def)
  have free: "\<not> isdir watch_fs ''/dest/invoices/[Invoice] march.pdf''"
    by (simp add: isdir_def watch_fs_def)
  have flt: "on_rename (move_faults cross_volume) = RenameRaises OSError"
    "on_copy (move_faults cross_volume) = CopyInterrupted 3 OSError"
    by (simp_all add: cross_volume_def)
  note t = move_file_no_cleanup [OF d invoice_new_path [symmetric]]
  have a: "move_file cross_volume watch_fs ''/watch/[Invoice] march.pdf'' ''/dest/invoices'' =
       (fs_write watch_fs ''/dest/invoices/[Invoice] march.pdf'' (File (take 3 ''pdf bytes'')),
        Some OSError)"
    using t [OF s1(1), where content = "''pdf bytes''" and n = 3 and e = OSError and ?e0.0 = OSError]
      src free flt
    by simp
  then have a': "move_file cross_volume watch_fs ''/watch/[Invoice] march.pdf'' ''/dest/invoices'' =
       (fs_write watch_fs ''/dest/invoices/[Invoice] march.pdf'' (File ''pdf''), Some OSError)"
    by simp
  have b: "map_of (fs_write watch_fs ''/dest/invoices/[Invoice] march.pdf'' (File ''pdf''))
         ''/watch/[Invoice] march.pdf'' = Some (File ''pdf bytes'')"
    using t [OF s1(1), where fs' = "fs_write watch_fs ''/dest/invoices/[Invoice] march.pdf'' (File ''pdf'')"
        and e = OSError] a' src
    by simp
  have c: "move_file quiet watch_fs ''/watch/[Invoice] march.pdf'' ''/dest/invoices'' =
       ([(''/dest/invoices/[Invoice] march.pdf'', File ''pdf bytes''), (''/watch'', Dir),
         (''/watch/report.pdf'', File ''report''), (''/dest/invoices'', Dir)], None)"
    by (subst move_file_invoice)
       (simp add: quiet_def undisturbed_def no_faults_def shutil_move_def isdir_def
          fs_write_def fs_remove_def watch_fs_def)
  have e: "\<not> path_exists [(''/dest/invoices/[Invoice] march.pdf'', File ''pdf bytes''), (''/watch'', Dir),
         (''/watch/report.pdf'', File ''report''), (''/dest/invoices'', Dir)]
         ''/watch/[Invoice] march.pdf''"
    using t [OF s1(2), where fs' = "[(''/dest/invoices/[Invoice] march.pdf'', File ''pdf bytes''),
         (''/watch'', Dir), (''/watch/report.pdf'', File ''report''), (''/dest/invoices'', Dir)]"]
      c src free
    by simp
  from d a' b c e show ?thesis by simp
qed

text \<open>
  Claim C6 as stated has the destination cleaned up before the error is surfaced. The
  copy that stops after three bytes leaves them at the destination.
\<close>

theorem move_file_partial_copy_counterexample:
  "move_file cross_volume watch_fs ''/watch/[Invoice] march.pdf'' ''/dest/invoices'' =
     ([(''/dest/invoices/[Invoice] march.pdf'', File ''pdf''), (''/watch'', Dir),
       (''/watch/[Invoice] march.pdf'', File ''pdf bytes''), (''/watch/report.pdf'', File ''report''),
       (''/dest/invoices'', Dir)], Some OSError)
   \<and> path_exists (fst (move_file cross_volume watch_fs ''/watch/[Invoice] march.pdf''
         ''/dest/invoices'')) ''/dest/invoices/[Invoice] march.pdf''"
  by (subst move_file_invoice)+
     (simp add: path_exists_def cross_volume_def undisturbed_def shutil_move_def copy_then_unlink_def
        isdir_def fs_write_def fs_remove_def watch_fs_def)

text \<open>
  Claim C7 on the code. \<^verbatim>\<open>move_file\<close> resolves a free name so as not to overwrite a
  file, sleeps for a second, and moves without a second look. The file that another
  process has put at the resolved path during the sleep is overwritten: the call
  succeeds, the newcomer's content is lost, and no second name is made.
\<close>

theorem move_file_overwrites_newcomer:
  "move_file raced watch_fs ''/watch/[Invoice] march.pdf'' ''/dest/invoices'' =
     ([(''/dest/invoices/[Invoice] march.pdf'', File ''pdf bytes''), (''/watch'', Dir),
       (''/watch/report.pdf'', File ''report''), (''/dest/invoices'', Dir)], None)
   \<and> map_of (during_sleep raced watch_fs) ''/dest/invoices/[Invoice] march.pdf'' =
       Some (File ''another file'')
   \<and> \<not> path_exists (fst (move_file raced watch_fs ''/watch/[Invoice] march.pdf''
         ''/dest/invoices'')) ''/dest/invoices/[Invoice] march_1.pdf''"
  by (subst move_file_invoice)+
     (simp add: path_exists_def raced_def newcomer_def no_faults_def shutil_move_def isdir_def
        fs_write_def fs_remove_def watch_fs_def)

subsection \<open>A move that goes through\<close>

text \<open>
  The handler end to end. After a wait that ended with \<open>True\<close>, for a name whose tag
  has a rule, with the rule's folder there, the literal name free in it, nothing
  changed during the sleep and a rename that goes through, the file ends up in the
  folder under its whole name, the tag included: the handler does not strip the tag.
\<close>

theorem on_created_moves_under_same_name:
  assumes "\<not> is_directory ev"
    and "wait_for_download (probes world) (src_path ev) 30 1 = Some (Inr True, polls, out)"
    and "extract_tag lower (basename (src_path ev)) = Some tag" and "tag \<noteq> []"
    and "sorting_rules tag = Some destination_folder"
    and "path_exists fs destination_folder"
    and "\<not> path_exists fs (join destination_folder (basename (src_path ev)))"
    and "map_of fs (src_path ev) = Some source"
    and "during_sleep world fs = fs" and "on_rename (move_faults world) = RenameOk"
  shows "on_created lower world sorting_rules fs ev =
    Some \<lparr>fs_after = fs_write (fs_remove fs (src_path ev))
             (join destination_folder (basename (src_path ev))) source,
          raised = None, printed = []\<rparr>"
proof -
  let ?new = "join destination_folder (basename (src_path ev))"
  have out: "out = []" using assms(2) by (rule wait_for_download_stable_silent)
  have new: "get_unique_filename fs destination_folder (basename (src_path ev)) = ?new"
    using assms(7)
    by (cases "splitext (basename (src_path ev))")
       (simp add: get_unique_filename_def unique_loop_literal)
  have nd: "\<not> isdir fs ?new" using assms(7) by (simp add: isdir_def path_exists_def)
  have "shutil_move (move_faults world) fs (src_path ev) ?new =
      (fs_write (fs_remove fs (src_path ev)) ?new source, None)"
    using assms(8,10) nd by (simp add: shutil_move_def)
  then have "move_file world fs (src_path ev) destination_folder =
      (fs_write (fs_remove fs (src_path ev)) ?new source, None)"
    using assms(6,9) new by (simp add: move_file_def)
  then show ?thesis using assms(1-5) out by (simp add: on_created_def Let_def)
qed

theorem on_created_moves_under_same_name_witness:
  "\<not> is_directory invoice_event
   \<and> wait_for_download (probes quiet) (src_path invoice_event) 30 1 = Some (Inr True, 2, [])
   \<and> extract_tag lower_ascii (basename (src_path invoice_event)) = Some ''[invoice]''
   \<and> invoice_rules ''[invoice]'' = Some ''/dest/invoices''
   \<and> on_created lower_ascii quiet invoice_rules watch_fs invoice_event =
       Some \<lparr>fs_after = [(''/dest/invoices/[Invoice] march.pdf'', File ''pdf bytes''),
                (''/watch'', Dir), (''/watch/report.pdf'', File ''report''),
                (''/dest/invoices'', Dir)],
             raised = None, printed = []\<rparr>"
proof -
  have d: "\<not> is_directory invoice_event" by (simp add: invoice_event_def)
  have w: "wait_for_download (probes quiet) (src_path invoice_event) 30 1 = Some (Inr True, 2, [])"
    by (simp add: quiet_def steady_stable)
  have t: "extract_tag lower_ascii (basename (src_path invoice_event)) = Some ''[invoice]''"
    by (simp add: invoice_event_def basenames tags)
  have ne: "''[invoice]'' \<noteq> []" by simp
  have r: "invoice_rules ''[invoice]'' = Some ''/dest/invoices''"
    by (simp add: invoice_rules_def)
  have e: "path_exists watch_fs ''/dest/invoices''"
    by (simp add: path_exists_def watch_fs_def)
  have f: "\<not> path_exists watch_fs (join ''/dest/invoices'' (basename (src_path invoice_event)))"
    by (simp add: invoice_event_def basenames join_def path_exists_def watch_fs_def)
  have s: "map_of watch_fs (src_path invoice_event) = Some (File ''pdf bytes'')"
    by (simp add: invoice_event_def watch_fs_def)
  have q: "during_sleep quiet watch_fs = watch_fs" "on_rename (move_faults quiet) = RenameOk"
    by (simp_all add: quiet_def undisturbed_def no_faults_def)
  have "on_created lower_ascii quiet invoice_rules watch_fs invoice_event =
      Some \<lparr>fs_after = fs_write (fs_remove watch_fs (src_path invoice_event))
             (join ''/dest/invoices'' (basename (src_path invoice_event))) (File ''pdf bytes''),
          raised = None, printed = []\<rparr>"
    using d w t ne r e f s q by (rule on_created_moves_under_same_name)
  then have "on_created lower_ascii quiet invoice_rules watch_fs invoice_event =
       Some \<lparr>fs_after = [(''/dest/invoices/[Invoice] march.pdf'', File ''pdf bytes''),
                (''/watch'', Dir), (''/watch/report.pdf'', File ''report''),
                (''/dest/invoices'', Dir)],
             raised = None, printed = []\<rparr>"
    by (simp add: invoice_event_def basenames join_def fs_write_def fs_remove_def watch_fs_def)
  with d w t r show ?thesis by simp
qed

end
